theory Spec2Isabelle
  imports Complex_Main "HOL-Library.AList" "HOL-Library.Sublist"
begin

section \<open>File system as seen through fs.readdir, fs.access, fs.stat and fs.readFile\<close>

text \<open>
  A path is the list of its components, from the file-system root; \<open>path.join(dirPath,
  entry.name)\<close> appends one component (an entry name holds no separator). The depth of a
  path below a search root is the number of components it has more than the root.
\<close>

type_synonym path = "string list"

text \<open>One entry of \<open>fs.readdir(dir, { withFileTypes: true })\<close>.\<close>

datatype Dirent = Dirent (name: string) (isFile: bool) (isDirectory: bool)

text \<open>
  What lives at a path: a regular file with its text, a directory with its listing, or a
  directory without read and search permission.
\<close>

datatype fsnode = RegularFile string | Directory "Dirent list" | Denied

text \<open>A file system holds finitely many nodes, each under its path.\<close>

type_synonym filesystem = "(path \<times> fsnode) list"

datatype errno = ENOENT | ENOTDIR | EACCES | EISDIR

text \<open>
  Path resolution walks down from the root: \<open>reached\<close> is the directory reached so far,
  the list the components still to go. A component that is missing gives ENOENT, one
  that has to be passed through but is a regular file gives ENOTDIR, one that may not be
  searched gives EACCES.
\<close>

fun resolve :: "filesystem \<Rightarrow> path \<Rightarrow> string list \<Rightarrow> errno + fsnode" where
  "resolve fs reached [] =
     (case map_of fs reached of None \<Rightarrow> Inl ENOENT | Some node \<Rightarrow> Inr node)"
| "resolve fs reached (c # cs) =
     (case map_of fs reached of
        None \<Rightarrow> Inl ENOENT
      | Some (RegularFile content) \<Rightarrow> Inl ENOTDIR
      | Some Denied \<Rightarrow> Inl EACCES
      | Some (Directory entries) \<Rightarrow> resolve fs (reached @ [c]) cs)"

definition nodeAt :: "filesystem \<Rightarrow> path \<Rightarrow> errno + fsnode" where
  "nodeAt fs p = resolve fs [] p"

text \<open>\<open>fs.readdir\<close>: \<open>Inl\<close> carries the code of the rejected promise.\<close>

definition readdir :: "filesystem \<Rightarrow> path \<Rightarrow> errno + Dirent list" where
  "readdir fs p =
     (case nodeAt fs p of
        Inl code \<Rightarrow> Inl code
      | Inr (Directory entries) \<Rightarrow> Inr entries
      | Inr (RegularFile content) \<Rightarrow> Inl ENOTDIR
      | Inr Denied \<Rightarrow> Inl EACCES)"

text \<open>\<open>fs.access\<close> resolves for anything that exists, whatever its type.\<close>

definition access :: "filesystem \<Rightarrow> path \<Rightarrow> bool" where
  "access fs p = (case nodeAt fs p of Inl code \<Rightarrow> False | Inr node \<Rightarrow> True)"

text \<open>\<open>fs.stat(p).isDirectory()\<close>, or the code with which \<open>fs.stat\<close> rejects.\<close>

definition stat_isDirectory :: "filesystem \<Rightarrow> path \<Rightarrow> errno + bool" where
  "stat_isDirectory fs p =
     (case nodeAt fs p of
        Inl code \<Rightarrow> Inl code
      | Inr (RegularFile content) \<Rightarrow> Inr False
      | Inr node \<Rightarrow> Inr True)"

text \<open>\<open>fs.readFile(p, 'utf-8')\<close>.\<close>

definition readFile :: "filesystem \<Rightarrow> path \<Rightarrow> errno + string" where
  "readFile fs p =
     (case nodeAt fs p of
        Inl code \<Rightarrow> Inl code
      | Inr (RegularFile content) \<Rightarrow> Inr content
      | Inr (Directory entries) \<Rightarrow> Inl EISDIR
      | Inr Denied \<Rightarrow> Inl EACCES)"

text \<open>
  The longest path of the file system. Every directory that can be read lies at a path
  of at most this length, which is why the recursive walks below come to an end.
\<close>

definition deepest :: "filesystem \<Rightarrow> nat" where
  "deepest fs = fold max (map (\<lambda>(p, node). length p) fs) 0"

lemma fold_max_ge: "(a::nat) \<le> fold max xs a"
  by (induction xs arbitrary: a) (auto intro: order_trans[OF max.cobounded2])

lemma fold_max_mem: "(x::nat) \<in> set xs \<Longrightarrow> x \<le> fold max xs a"
proof (induction xs arbitrary: a)
  case Nil
  then show ?case by simp
next
  case (Cons y ys)
  show ?case
  proof (cases "x = y")
    case True
    have "y \<le> max y a" by simp
    also have "\<dots> \<le> fold max ys (max y a)" by (rule fold_max_ge)
    finally show ?thesis using True by simp
  next
    case False
    with Cons.prems have "x \<in> set ys" by simp
    from Cons.IH[OF this] show ?thesis by simp
  qed
qed

lemma deepest_ge: "(p, node) \<in> set fs \<Longrightarrow> length p \<le> deepest fs"
  unfolding deepest_def by (rule fold_max_mem) force

lemma resolve_map_of: "resolve fs reached cs = Inr node \<Longrightarrow> map_of fs (reached @ cs) = Some node"
  by (induction fs reached cs rule: resolve.induct) (auto split: option.splits fsnode.splits)

lemma nodeAt_map_of: "nodeAt fs p = Inr node \<Longrightarrow> map_of fs p = Some node"
  using resolve_map_of[of fs "[]" p node] by (simp add: nodeAt_def)

lemma readdir_deepest: "readdir fs p = Inr entries \<Longrightarrow> length p \<le> deepest fs"
proof -
  assume "readdir fs p = Inr entries"
  then have "nodeAt fs p = Inr (Directory entries)"
    by (auto simp: readdir_def split: sum.splits fsnode.splits)
  then have "(p, Directory entries) \<in> set fs" by (auto dest: nodeAt_map_of map_of_SomeD)
  then show ?thesis by (rule deepest_ge)
qed

section \<open>String operations\<close>

definition startsWith :: "string \<Rightarrow> string \<Rightarrow> bool" where
  "startsWith s p = prefix p s"

definition endsWith :: "string \<Rightarrow> string \<Rightarrow> bool" where
  "endsWith s p = suffix p s"

text \<open>
  Strings are sequences of UTF-16 code units below 256; \<open>toLowerCase\<close> maps the capital
  letters of that range (A to Z, and the accented capitals 192 to 222 except the
  multiplication sign 215) to their small letters.
\<close>

definition toLowerChar :: "char \<Rightarrow> char" where
  "toLowerChar c =
     (let n = (of_char c :: nat)
      in if (65 \<le> n \<and> n \<le> 90) \<or> (192 \<le> n \<and> n \<le> 222 \<and> n \<noteq> 215)
         then char_of (n + 32) else c)"

definition toLowerCase :: "string \<Rightarrow> string" where
  "toLowerCase s = map toLowerChar s"

text \<open>\<open>s.includes(q)\<close>: \<open>q\<close> occurs in \<open>s\<close> as a contiguous piece.\<close>

fun str_includes :: "string \<Rightarrow> string \<Rightarrow> bool" where
  "str_includes [] q = (q = [])"
| "str_includes (c # s) q = (prefix q (c # s) \<or> str_includes s q)"

lemma includes_iff: "str_includes s q \<longleftrightarrow> (\<exists>pre post. s = pre @ q @ post)"
proof (induction s)
  case Nil
  then show ?case by auto
next
  case (Cons c s)
  show ?case
  proof
    assume "str_includes (c # s) q"
    then consider "prefix q (c # s)" | "str_includes s q" by auto
    then show "\<exists>pre post. c # s = pre @ q @ post"
    proof cases
      case 1
      then obtain post where "c # s = q @ post" by (auto simp: prefix_def)
      then have "c # s = [] @ q @ post" by simp
      then show ?thesis by blast
    next
      case 2
      with Cons.IH obtain pre post where "s = pre @ q @ post" by blast
      then have "c # s = (c # pre) @ q @ post" by simp
      then show ?thesis by blast
    qed
  next
    assume "\<exists>pre post. c # s = pre @ q @ post"
    then obtain pre post where eq: "c # s = pre @ q @ post" by blast
    show "str_includes (c # s) q"
    proof (cases pre)
      case Nil
      with eq have "prefix q (c # s)" by simp
      then show ?thesis by simp
    next
      case (Cons a pre')
      with eq have "s = pre' @ q @ post" by simp
      with Cons.IH show ?thesis by auto
    qed
  qed
qed

lemma includes_self: "str_includes s s"
  using includes_iff[of s s] by (metis append_Nil append_Nil2)

section \<open>Cache (performance module)\<close>

text \<open>
  \<open>Date.now()\<close> is passed in as \<open>now\<close> (milliseconds). The JavaScript \<open>Map\<close> keeps
  insertion order and one entry per key; it is an association list here:
  \<open>AList.update\<close> overwrites in place or appends, \<open>AList.delete\<close> removes the key.
  Every operation returns the cache it leaves behind.
\<close>

record 'v CacheEntry =
  data :: 'v
  timestamp :: int
  hits :: nat

record ('k, 'v) Cache =
  cache :: "('k \<times> 'v CacheEntry) list"
  ttl :: int

record 'k CacheStats =
  stats_size :: nat
  totalHits :: nat
  keys :: "'k list"

definition Cache_new :: "int \<Rightarrow> ('k, 'v) Cache" where
  "Cache_new t = \<lparr>cache = [], ttl = t\<rparr>"

definition Cache_set :: "int \<Rightarrow> 'k \<Rightarrow> 'v \<Rightarrow> ('k, 'v) Cache \<Rightarrow> ('k, 'v) Cache" where
  "Cache_set now key v c =
     c\<lparr>cache := AList.update key \<lparr>data = v, timestamp = now, hits = 0\<rparr> (cache c)\<rparr>"

definition Cache_get :: "int \<Rightarrow> 'k \<Rightarrow> ('k, 'v) Cache \<Rightarrow> 'v option \<times> ('k, 'v) Cache" where
  "Cache_get now key c =
     (case map_of (cache c) key of
        None \<Rightarrow> (None, c)
      | Some entry \<Rightarrow>
          if now - timestamp entry > ttl c
          then (None, c\<lparr>cache := AList.delete key (cache c)\<rparr>)
          else (Some (data entry),
                c\<lparr>cache := AList.update key (entry\<lparr>hits := hits entry + 1\<rparr>) (cache c)\<rparr>))"

definition Cache_delete :: "'k \<Rightarrow> ('k, 'v) Cache \<Rightarrow> ('k, 'v) Cache" where
  "Cache_delete key c = c\<lparr>cache := AList.delete key (cache c)\<rparr>"

definition Cache_clear :: "('k, 'v) Cache \<Rightarrow> ('k, 'v) Cache" where
  "Cache_clear c = c\<lparr>cache := []\<rparr>"

definition Cache_cleanup :: "int \<Rightarrow> ('k, 'v) Cache \<Rightarrow> ('k, 'v) Cache" where
  "Cache_cleanup now c =
     c\<lparr>cache := filter (\<lambda>(key, entry). \<not> (now - timestamp entry > ttl c)) (cache c)\<rparr>"

definition Cache_size :: "int \<Rightarrow> ('k, 'v) Cache \<Rightarrow> nat \<times> ('k, 'v) Cache" where
  "Cache_size now c = (let c' = Cache_cleanup now c in (length (cache c'), c'))"

definition Cache_getStats :: "int \<Rightarrow> ('k, 'v) Cache \<Rightarrow> 'k CacheStats \<times> ('k, 'v) Cache" where
  "Cache_getStats now c =
     (let c' = Cache_cleanup now c
      in (\<lparr>stats_size = length (cache c'),
           totalHits = sum_list (map (\<lambda>(key, entry). hits entry) (cache c')),
           keys = map fst (cache c')\<rparr>, c'))"

subsection \<open>PerformanceManager: the request-list and discovery namespaces\<close>

text \<open>
  A request as \<open>findBrunoRequests\<close> builds it. Each field \<open>req_x\<close> is the field \<open>x\<close> of
  the source; \<open>path\<close> is always set there, to the joined path of the file.
\<close>

record BrunoRequest =
  req_name :: string
  req_method :: "string option"
  req_url :: "string option"
  req_folder :: "path option"
  req_path :: path

text \<open>
  \<open>cacheEnabled\<close> is the configuration flag read through \<open>getConfigLoader()\<close> on every
  call. Both caches are keyed by the path alone.
\<close>

record PerformanceManager =
  cacheEnabled :: bool
  requestListCache :: "(path, BrunoRequest list) Cache"
  collectionDiscoveryCache :: "(path, path list) Cache"

definition cacheRequestList ::
  "int \<Rightarrow> path \<Rightarrow> BrunoRequest list \<Rightarrow> PerformanceManager \<Rightarrow> PerformanceManager" where
  "cacheRequestList now collectionPath requests pm =
     (if \<not> cacheEnabled pm then pm
      else pm\<lparr>requestListCache :=
                Cache_set now collectionPath requests (requestListCache pm)\<rparr>)"

definition getCachedRequestList ::
  "int \<Rightarrow> path \<Rightarrow> PerformanceManager \<Rightarrow> BrunoRequest list option \<times> PerformanceManager" where
  "getCachedRequestList now collectionPath pm =
     (if \<not> cacheEnabled pm then (None, pm)
      else (case Cache_get now collectionPath (requestListCache pm) of
              (r, c') \<Rightarrow> (r, pm\<lparr>requestListCache := c'\<rparr>)))"

definition cacheCollectionDiscovery ::
  "int \<Rightarrow> path \<Rightarrow> path list \<Rightarrow> PerformanceManager \<Rightarrow> PerformanceManager" where
  "cacheCollectionDiscovery now searchPath collections pm =
     (if \<not> cacheEnabled pm then pm
      else pm\<lparr>collectionDiscoveryCache :=
                Cache_set now searchPath collections (collectionDiscoveryCache pm)\<rparr>)"

definition getCachedCollectionDiscovery ::
  "int \<Rightarrow> path \<Rightarrow> PerformanceManager \<Rightarrow> path list option \<times> PerformanceManager" where
  "getCachedCollectionDiscovery now searchPath pm =
     (if \<not> cacheEnabled pm then (None, pm)
      else (case Cache_get now searchPath (collectionDiscoveryCache pm) of
              (r, c') \<Rightarrow> (r, pm\<lparr>collectionDiscoveryCache := c'\<rparr>)))"

section \<open>Collection discovery\<close>

text \<open>
  A JavaScript number, as \<open>maxDepth\<close> is one: a finite value, \<open>NaN\<close>, or one of the
  infinities. \<open>Math.min\<close> and the comparison \<open>>\<close> are the two operations the discovery
  applies to it.
\<close>

datatype number = Number real | NaN | PosInfinity | NegInfinity

fun Math_min :: "number \<Rightarrow> number \<Rightarrow> number" where
  "Math_min NaN b = NaN"
| "Math_min a NaN = NaN"
| "Math_min NegInfinity b = NegInfinity"
| "Math_min a NegInfinity = NegInfinity"
| "Math_min PosInfinity b = b"
| "Math_min a PosInfinity = a"
| "Math_min (Number x) (Number y) = Number (min x y)"

text \<open>\<open>a > b\<close>: false whenever an operand is \<open>NaN\<close>.\<close>

fun greater :: "number \<Rightarrow> number \<Rightarrow> bool" where
  "greater NaN b = False"
| "greater a NaN = False"
| "greater (Number x) (Number y) = (x > y)"
| "greater a PosInfinity = False"
| "greater NegInfinity b = False"
| "greater PosInfinity b = True"
| "greater a NegInfinity = True"

definition hasBrunoJson :: "Dirent list \<Rightarrow> bool" where
  "hasBrunoJson entries = list_ex (\<lambda>entry. isFile entry \<and> name entry = ''bruno.json'') entries"

definition searchable :: "Dirent \<Rightarrow> bool" where
  "searchable entry =
     (isDirectory entry \<and> \<not> startsWith (name entry) ''.'' \<and> name entry \<noteq> ''node_modules'')"

text \<open>
  The inner \<open>searchDirectory\<close>. It returns the paths pushed onto \<open>collections\<close>, in push
  order, and next to them the paths handed to \<open>fs.readdir\<close>, in call order. A failing
  \<open>readdir\<close> is caught and skipped. \<open>currentDepth\<close> starts at \<open>0\<close> and is only ever
  incremented, so it is a natural number. The recursion ends, whatever \<open>maxSearchDepth\<close>
  is, because it goes on only below a directory that was read.
\<close>

function searchDirectory :: "filesystem \<Rightarrow> number \<Rightarrow> path \<Rightarrow> nat \<Rightarrow> path list \<times> path list" where
  "searchDirectory fs maxSearchDepth dirPath currentDepth =
     (if greater (Number (real currentDepth)) maxSearchDepth then ([], [])
      else case readdir fs dirPath of
             Inl code \<Rightarrow> ([], [dirPath])
           | Inr entries \<Rightarrow>
               if hasBrunoJson entries then ([dirPath], [dirPath])
               else
                 (let subs = map (\<lambda>entry. searchDirectory fs maxSearchDepth
                                             (dirPath @ [name entry]) (currentDepth + 1))
                                 (filter searchable entries)
                  in (concat (map fst subs), dirPath # concat (map snd subs))))"
  by pat_completeness auto
termination
proof (relation "measure (\<lambda>(fs, maxSearchDepth, dirPath, currentDepth).
                   Suc (deepest fs) - length dirPath)")
  show "wf (measure (\<lambda>(fs, maxSearchDepth, dirPath, currentDepth).
                   Suc (deepest fs) - length dirPath))" by simp
next
  fix fs :: filesystem and maxSearchDepth :: number and dirPath :: path
    and currentDepth :: nat and entries :: "Dirent list" and entry :: Dirent
  assume "readdir fs dirPath = Inr entries"
  then have "length dirPath \<le> deepest fs" by (rule readdir_deepest)
  then show "((fs, maxSearchDepth, dirPath @ [name entry], currentDepth + 1),
              (fs, maxSearchDepth, dirPath, currentDepth))
             \<in> measure (\<lambda>(fs, maxSearchDepth, dirPath, currentDepth).
                   Suc (deepest fs) - length dirPath)"
    by simp
qed

declare searchDirectory.simps [simp del]

text \<open>
  \<open>discoverCollections\<close>: \<open>t0\<close> is the clock at the cache look-up, \<open>t1\<close> the clock when the
  result is stored; \<open>maxDepth\<close> is the number the body sees (\<open>5\<close> when the caller leaves the
  argument out). The result is the returned list, the list of directories read, and the
  manager afterwards. A cached array is truthy even when empty, so any hit returns.
\<close>

definition discoverCollections ::
  "filesystem \<Rightarrow> int \<Rightarrow> int \<Rightarrow> PerformanceManager \<Rightarrow> path \<Rightarrow> number
     \<Rightarrow> (path list \<times> path list) \<times> PerformanceManager" where
  "discoverCollections fs t0 t1 pm searchPath maxDepth =
     (case getCachedCollectionDiscovery t0 searchPath pm of
        (Some cached, pm') \<Rightarrow> ((cached, []), pm')
      | (None, pm') \<Rightarrow>
          (let maxSearchDepth = Math_min maxDepth (Number 10);
               found = searchDirectory fs maxSearchDepth searchPath 0
           in (found, cacheCollectionDiscovery t1 searchPath (fst found) pm')))"

definition returned :: "(path list \<times> path list) \<times> PerformanceManager \<Rightarrow> path list" where
  "returned r = fst (fst r)"

definition dirsRead :: "(path list \<times> path list) \<times> PerformanceManager \<Rightarrow> path list" where
  "dirsRead r = snd (fst r)"

definition cacheMiss :: "int \<Rightarrow> PerformanceManager \<Rightarrow> path \<Rightarrow> bool" where
  "cacheMiss t0 pm searchPath = (fst (getCachedCollectionDiscovery t0 searchPath pm) = None)"

subsection \<open>Facts about the traversal\<close>

text \<open>A directory contains the marker manifest: its listing has a file entry \<open>bruno.json\<close>.\<close>

definition hasMarker :: "filesystem \<Rightarrow> path \<Rightarrow> bool" where
  "hasMarker fs p = (case readdir fs p of Inr entries \<Rightarrow> hasBrunoJson entries | Inl code \<Rightarrow> False)"

text \<open>
  The way from a directory down along the given component names is open to the walk:
  every directory on it, the last one left aside, can be read, holds no file
  \<open>bruno.json\<close>, and lists the next component as a directory that the loop does not
  skip.
\<close>

fun openWay :: "filesystem \<Rightarrow> path \<Rightarrow> string list \<Rightarrow> bool" where
  "openWay fs dirPath [] = True"
| "openWay fs dirPath (n # ns) =
     (case readdir fs dirPath of
        Inl code \<Rightarrow> False
      | Inr entries \<Rightarrow>
          \<not> hasBrunoJson entries
          \<and> list_ex (\<lambda>entry. searchable entry \<and> name entry = n) entries
          \<and> openWay fs (dirPath @ [n]) ns)"

text \<open>A depth that \<open>currentDepth > maxSearchDepth\<close> does not cut off.\<close>

definition withinDepth :: "nat \<Rightarrow> number \<Rightarrow> bool" where
  "withinDepth depth maxDepth =
     (\<not> greater (Number (real depth)) (Math_min maxDepth (Number 10)))"

lemma withinDepth_cases:
  "withinDepth depth (Number x) \<longleftrightarrow> real depth \<le> min x 10"
  "withinDepth depth PosInfinity \<longleftrightarrow> depth \<le> 10"
  "withinDepth depth NaN"
  "\<not> withinDepth depth NegInfinity"
  by (auto simp: withinDepth_def)

lemma greater_mono: "\<not> greater (Number a) m \<Longrightarrow> b \<le> a \<Longrightarrow> \<not> greater (Number b) m"
  by (cases m) auto

lemma searchDirectory_beyond:
  "greater (Number (real cd)) m \<Longrightarrow> searchDirectory fs m d cd = ([], [])"
  by (simp add: searchDirectory.simps)

lemma searchDirectory_unreadable:
  "\<not> greater (Number (real cd)) m \<Longrightarrow> readdir fs d = Inl code \<Longrightarrow>
   searchDirectory fs m d cd = ([], [d])"
  by (simp add: searchDirectory.simps)

lemma searchDirectory_marker:
  "\<not> greater (Number (real cd)) m \<Longrightarrow> hasMarker fs d \<Longrightarrow> searchDirectory fs m d cd = ([d], [d])"
  by (subst searchDirectory.simps) (simp add: hasMarker_def split: sum.splits)

lemma searchDirectory_descend:
  "\<not> greater (Number (real cd)) m \<Longrightarrow> readdir fs d = Inr entries \<Longrightarrow> \<not> hasBrunoJson entries \<Longrightarrow>
   searchDirectory fs m d cd =
     (concat (map (\<lambda>e. fst (searchDirectory fs m (d @ [name e]) (cd + 1))) (filter searchable entries)),
      d # concat (map (\<lambda>e. snd (searchDirectory fs m (d @ [name e]) (cd + 1))) (filter searchable entries)))"
  by (subst searchDirectory.simps) (simp add: Let_def comp_def)

lemma searchDirectory_cases [consumes 1, case_names unreadable marker here descend]:
  assumes "p \<in> set (snd (searchDirectory fs m d cd))"
  obtains code where "\<not> greater (Number (real cd)) m" "readdir fs d = Inl code" "p = d"
    | "\<not> greater (Number (real cd)) m" "hasMarker fs d" "p = d"
    | entries where "\<not> greater (Number (real cd)) m" "readdir fs d = Inr entries"
        "\<not> hasBrunoJson entries" "p = d"
    | entries e where "\<not> greater (Number (real cd)) m" "readdir fs d = Inr entries"
        "\<not> hasBrunoJson entries" "e \<in> set (filter searchable entries)"
        "p \<in> set (snd (searchDirectory fs m (d @ [name e]) (cd + 1)))"
proof (cases "greater (Number (real cd)) m")
  case True
  with assms show ?thesis by (simp add: searchDirectory_beyond)
next
  case le: False
  show ?thesis
  proof (cases "readdir fs d")
    case (Inl code)
    with le assms that(1) show ?thesis by (simp add: searchDirectory_unreadable)
  next
    case (Inr entries)
    show ?thesis
    proof (cases "hasBrunoJson entries")
      case True
      then have "hasMarker fs d" using Inr by (simp add: hasMarker_def)
      with le assms that(2) show ?thesis by (simp add: searchDirectory_marker)
    next
      case False
      with le Inr assms that(3,4) show ?thesis
        by (auto simp: searchDirectory_descend)
    qed
  qed
qed

lemma searchDirectory_depth:
  "p \<in> set (snd (searchDirectory fs m d cd)) \<Longrightarrow>
     prefix d p \<and> \<not> greater (Number (real (cd + (length p - length d)))) m"
proof (induction fs m d cd rule: searchDirectory.induct)
  case (1 fs m d cd)
  from 1(2) show ?case
  proof (cases rule: searchDirectory_cases)
    case (descend entries e)
    from "1.IH"[OF descend(1,2,3,4,5)]
    have pp: "prefix (d @ [name e]) p"
      and dp: "\<not> greater (Number (real (cd + 1 + (length p - length (d @ [name e]))))) m"
      by auto
    from pp have "length (d @ [name e]) \<le> length p" by (rule prefix_length_le)
    then have eq: "cd + 1 + (length p - length (d @ [name e])) = cd + (length p - length d)"
      by simp
    from dp have "\<not> greater (Number (real (cd + (length p - length d)))) m"
      unfolding eq .
    moreover from pp have "prefix d p" by (rule append_prefixD)
    ultimately show ?thesis by blast
  qed auto
qed

lemma searchDirectory_ancestors:
  "p \<in> set (snd (searchDirectory fs m d cd)) \<Longrightarrow> prefix d q \<Longrightarrow> strict_prefix q p \<Longrightarrow>
     \<not> hasMarker fs q"
proof (induction fs m d cd rule: searchDirectory.induct)
  case (1 fs m d cd)
  from 1(2) show ?case
  proof (cases rule: searchDirectory_cases)
    case (descend entries e)
    have pp: "prefix (d @ [name e]) p" using searchDirectory_depth[OF descend(5)] by simp
    show ?thesis
    proof (cases "q = d")
      case True
      with descend(2,3) show ?thesis by (simp add: hasMarker_def)
    next
      case False
      have "prefix (d @ [name e]) q"
        using False 1(3,4) pp
        by (metis prefix_order.dual_order.strict_implies_order prefix_same_cases prefix_snoc
            prefix_order.antisym)
      from "1.IH"[OF descend(1,2,3,4,5) this 1(4)] show ?thesis by simp
    qed
  next
    case unreadable with "1.prems" show ?thesis by (auto simp: strict_prefix_def)
  next
    case marker with "1.prems" show ?thesis by (auto simp: strict_prefix_def)
  next
    case here with "1.prems" show ?thesis by (auto simp: strict_prefix_def)
  qed
qed

lemma searchDirectory_collections:
  "set (fst (searchDirectory fs m d cd)) = {p \<in> set (snd (searchDirectory fs m d cd)). hasMarker fs p}"
proof (induction fs m d cd rule: searchDirectory.induct)
  case (1 fs m d cd)
  show ?case
  proof (cases "greater (Number (real cd)) m")
    case True
    then show ?thesis by (simp add: searchDirectory_beyond)
  next
    case le: False
    show ?thesis
    proof (cases "readdir fs d")
      case (Inl code)
      with le show ?thesis by (auto simp: searchDirectory_unreadable hasMarker_def)
    next
      case (Inr entries)
      show ?thesis
      proof (cases "hasBrunoJson entries")
        case True
        then have "hasMarker fs d" using Inr by (simp add: hasMarker_def)
        with le show ?thesis by (auto simp: searchDirectory_marker)
      next
        case False
        have nm: "\<not> hasMarker fs d" using Inr False by (simp add: hasMarker_def)
        show ?thesis
          using "1.IH"[OF le Inr False] nm
          by (auto simp: searchDirectory_descend[OF le Inr False])
      qed
    qed
  qed
qed

lemma searchDirectory_reads_root:
  "\<not> greater (Number (real cd)) m \<Longrightarrow> d \<in> set (snd (searchDirectory fs m d cd))"
  by (subst searchDirectory.simps) (simp split: sum.splits add: Let_def)

text \<open>An open way is walked to its end, as far as the depth allows.\<close>

lemma searchDirectory_reaches:
  "openWay fs d ns \<Longrightarrow> \<not> greater (Number (real (cd + length ns))) m \<Longrightarrow>
     d @ ns \<in> set (snd (searchDirectory fs m d cd))"
proof (induction ns arbitrary: d cd)
  case Nil
  then show ?case by (simp add: searchDirectory_reads_root)
next
  case (Cons n ns)
  from Cons.prems(1) obtain entries where rd: "readdir fs d = Inr entries"
    and nm: "\<not> hasBrunoJson entries"
    and ex: "list_ex (\<lambda>entry. searchable entry \<and> name entry = n) entries"
    and way: "openWay fs (d @ [n]) ns"
    by (auto split: sum.splits)
  from ex obtain e where e: "e \<in> set entries" "searchable e" "name e = n"
    by (auto simp: list_ex_iff)
  have here: "\<not> greater (Number (real cd)) m"
    by (rule greater_mono[OF Cons.prems(2)]) simp
  have "\<not> greater (Number (real (Suc cd + length ns))) m" using Cons.prems(2) by simp
  from Cons.IH[OF way this]
  have "d @ n # ns \<in> set (snd (searchDirectory fs m (d @ [n]) (Suc cd)))" by simp
  with e show ?case
    by (auto simp: searchDirectory_descend[OF here rd nm])
qed

lemma discover_miss:
  "cacheMiss t0 pm start \<Longrightarrow>
   fst (discoverCollections fs t0 t1 pm start maxDepth)
     = searchDirectory fs (Math_min maxDepth (Number 10)) start 0"
  by (auto simp: cacheMiss_def discoverCollections_def Let_def split: prod.splits option.splits)

lemma discover_hit:
  "\<not> cacheMiss t0 pm start \<Longrightarrow> dirsRead (discoverCollections fs t0 t1 pm start maxDepth) = []"
  by (auto simp: cacheMiss_def discoverCollections_def dirsRead_def Let_def split: prod.splits option.splits)

subsection \<open>Depth cap and collection roots as leaves\<close>


text \<open>A manager with caching on and nothing cached (discovery TTL = twice the default).\<close>

definition freshManager :: PerformanceManager where
  "freshManager = \<lparr>cacheEnabled = True, requestListCache = Cache_new 300000,
                    collectionDiscoveryCache = Cache_new 600000\<rparr>"

text \<open>Two request files: one states its name in a \<open>meta\<close> block, the other does not.\<close>

definition createBru :: string where
  "createBru = ''meta {\<newline>  name: Create User\<newline>}\<newline>post {\<newline>  url: /users\<newline>}''"

definition getUsersBru :: string where
  "getUsersBru = ''get {\<newline>  url: /users\<newline>}''"

text \<open>
  A small workspace: \<open>w/api\<close> is a collection, with a nested collection \<open>w/api/users\<close>
  that holds the collection \<open>w/api/users/v2\<close> in turn; \<open>w/legacy\<close> is marked by
  \<open>collection.bru\<close> only.
\<close>

definition exampleFs :: filesystem where
  "exampleFs =
     [([], Directory [Dirent ''w'' False True]),
      ([''w''], Directory [Dirent ''api'' False True, Dirent ''node_modules'' False True,
                           Dirent ''.git'' False True, Dirent ''legacy'' False True,
                           Dirent ''README.md'' True False]),
      ([''w'', ''api''], Directory [Dirent ''bruno.json'' True False, Dirent ''users'' False True,
                                    Dirent ''Get Users.bru'' True False]),
      ([''w'', ''api'', ''bruno.json''], RegularFile ''{}''),
      ([''w'', ''api'', ''Get Users.bru''], RegularFile getUsersBru),
      ([''w'', ''api'', ''users''], Directory [Dirent ''bruno.json'' True False,
                                               Dirent ''create.bru'' True False,
                                               Dirent ''v2'' False True]),
      ([''w'', ''api'', ''users'', ''bruno.json''], RegularFile ''{}''),
      ([''w'', ''api'', ''users'', ''create.bru''],
         RegularFile createBru),
      ([''w'', ''api'', ''users'', ''v2''], Directory [Dirent ''bruno.json'' True False]),
      ([''w'', ''api'', ''users'', ''v2'', ''bruno.json''], RegularFile ''{}''),
      ([''w'', ''node_modules''], Directory []),
      ([''w'', ''.git''], Directory []),
      ([''w'', ''legacy''], Directory [Dirent ''collection.bru'' True False]),
      ([''w'', ''legacy'', ''collection.bru''], RegularFile ''''),
      ([''w'', ''README.md''], RegularFile ''hello'')]"



lemma cacheMiss_fresh: "cacheMiss t freshManager p"
  by (simp add: cacheMiss_def getCachedCollectionDiscovery_def freshManager_def Cache_get_def
      Cache_new_def)

lemmas example_eval = discover_miss cacheMiss_fresh returned_def dirsRead_def
  searchDirectory.simps exampleFs_def readdir_def nodeAt_def hasBrunoJson_def searchable_def
  startsWith_def



lemma reads_within:
  assumes "p \<in> set (dirsRead (discoverCollections fs t0 t1 pm start maxDepth))"
  shows "cacheMiss t0 pm start"
    and "p \<in> set (snd (searchDirectory fs (Math_min maxDepth (Number 10)) start 0))"
    and "prefix start p"
    and "\<not> greater (Number (real (length p) - real (length start))) (Math_min maxDepth (Number 10))"
proof -
  show miss: "cacheMiss t0 pm start" using assms discover_hit by fastforce
  from assms show rd: "p \<in> set (snd (searchDirectory fs (Math_min maxDepth (Number 10)) start 0))"
    by (simp add: dirsRead_def discover_miss[OF miss])
  from searchDirectory_depth[OF rd]
  show pre: "prefix start p"
    and "\<not> greater (Number (real (length p) - real (length start))) (Math_min maxDepth (Number 10))"
    by (auto dest: prefix_length_le simp: of_nat_diff)
qed




text \<open>
  Claim C5, with what it takes for the walk to come to \<open>D\<close>. Let \<open>D\<close>, the directory
  \<open>ns\<close> below the search root, contain the marker file. If the call is not served from the
  cache, the way from the search root to \<open>D\<close> is open and the depth of \<open>D\<close> is within the
  bound, then \<open>D\<close> is returned. In every case no strict descendant of \<open>D\<close> is read, and
  none is returned by a call that is not served from the cache; a search started at \<open>D\<close>
  itself returns exactly \<open>D\<close> and reads nothing else. A found collection root is a
  traversal leaf.
\<close>

theorem collection_root_is_leaf:
  assumes D: "hasMarker fs (start @ ns)"
  shows "(cacheMiss t0 pm start \<and> openWay fs start ns \<and> withinDepth (length ns) maxDepth \<longrightarrow>
            start @ ns \<in> set (returned (discoverCollections fs t0 t1 pm start maxDepth)))
       \<and> (\<forall>p. strict_prefix (start @ ns) p \<longrightarrow>
              p \<notin> set (dirsRead (discoverCollections fs t0 t1 pm start maxDepth))
              \<and> (cacheMiss t0 pm start \<longrightarrow>
                    p \<notin> set (returned (discoverCollections fs t0 t1 pm start maxDepth))))
       \<and> (ns = [] \<and> withinDepth 0 maxDepth \<and> cacheMiss t0 pm start \<longrightarrow>
              returned (discoverCollections fs t0 t1 pm start maxDepth) = [start]
              \<and> dirsRead (discoverCollections fs t0 t1 pm start maxDepth) = [start])"
proof (intro conjI allI impI)
  let ?r = "discoverCollections fs t0 t1 pm start maxDepth"
  let ?s = "searchDirectory fs (Math_min maxDepth (Number 10)) start 0"
  have below: "prefix start (start @ ns)" by simp
  have rets: "cacheMiss t0 pm start \<Longrightarrow> set (returned ?r) = {p \<in> set (snd ?s). hasMarker fs p}"
    by (simp add: returned_def discover_miss searchDirectory_collections)
  {
    assume a: "cacheMiss t0 pm start \<and> openWay fs start ns \<and> withinDepth (length ns) maxDepth"
    then have "\<not> greater (Number (real (0 + length ns))) (Math_min maxDepth (Number 10))"
      by (simp add: withinDepth_def)
    from searchDirectory_reaches[OF _ this] a have "start @ ns \<in> set (snd ?s)" by simp
    with rets a D show "start @ ns \<in> set (returned ?r)" by simp
  }
  {
    fix p assume sp: "strict_prefix (start @ ns) p"
    show "p \<notin> set (dirsRead ?r)"
    proof
      assume "p \<in> set (dirsRead ?r)"
      from searchDirectory_ancestors[OF reads_within(2)[OF this] below sp] D show False by simp
    qed
    assume miss: "cacheMiss t0 pm start"
    show "p \<notin> set (returned ?r)"
    proof
      assume "p \<in> set (returned ?r)"
      then have "p \<in> set (snd ?s)" using rets[OF miss] by simp
      from searchDirectory_ancestors[OF this below sp] D show False by simp
    qed
  }
  {
    assume a: "ns = [] \<and> withinDepth 0 maxDepth \<and> cacheMiss t0 pm start"
    then have "\<not> greater (Number (real 0)) (Math_min maxDepth (Number 10))"
      by (simp add: withinDepth_def)
    from searchDirectory_marker[OF this] a D have "?s = ([start], [start])" by simp
    with a show "returned ?r = [start]" "dirsRead ?r = [start]"
      by (simp_all add: returned_def dirsRead_def discover_miss)
  }
qed

theorem collection_root_is_leaf_witness:
  "hasMarker exampleFs ([''w''] @ [''api'']) \<and> hasMarker exampleFs [''w'', ''api'', ''users'']
   \<and> openWay exampleFs [''w''] [''api''] \<and> withinDepth (length [''api'']) (Number 5)
   \<and> strict_prefix ([''w''] @ [''api'']) [''w'', ''api'', ''users'']
   \<and> [''w''] @ [''api''] \<in> set (returned (discoverCollections exampleFs 0 0 freshManager [''w''] (Number 5)))
   \<and> [''w'', ''api'', ''users'']
         \<notin> set (dirsRead (discoverCollections exampleFs 0 0 freshManager [''w''] (Number 5)))
   \<and> [''w'', ''api'', ''users'']
         \<notin> set (returned (discoverCollections exampleFs 0 0 freshManager [''w''] (Number 5)))"
proof -
  have D: "hasMarker exampleFs ([''w''] @ [''api''])"
    and inner: "hasMarker exampleFs [''w'', ''api'', ''users'']"
    and way: "openWay exampleFs [''w''] [''api'']"
    by (simp_all add: hasMarker_def exampleFs_def readdir_def nodeAt_def hasBrunoJson_def
        searchable_def startsWith_def)
  have depth: "withinDepth (length [''api'']) (Number 5)" by (simp add: withinDepth_def)
  have sp: "strict_prefix ([''w''] @ [''api'']) [''w'', ''api'', ''users'']"
    by (simp add: strict_prefix_def)
  note miss = cacheMiss_fresh[of 0 "[''w'']"]
  note leaf = collection_root_is_leaf[OF D, of 0 freshManager "Number 5" 0]
  from leaf miss way depth
  have "[''w''] @ [''api'']
          \<in> set (returned (discoverCollections exampleFs 0 0 freshManager [''w''] (Number 5)))"
    by blast
  moreover from leaf sp miss
  have "[''w'', ''api'', ''users'']
          \<notin> set (dirsRead (discoverCollections exampleFs 0 0 freshManager [''w''] (Number 5)))"
       "[''w'', ''api'', ''users'']
          \<notin> set (returned (discoverCollections exampleFs 0 0 freshManager [''w''] (Number 5)))"
    by blast+
  ultimately show ?thesis using D inner way depth sp by blast
qed

text \<open>
  Claim C5 as stated promises that \<open>D\<close> is returned for every tree. In the example
  workspace \<open>w/api/users\<close> holds the marker file and so does its descendant
  \<open>w/api/users/v2\<close>, yet a search of \<open>w\<close> returns \<open>w/api\<close> alone: \<open>w/api/users\<close> lies inside
  a collection itself. Likewise \<open>w/api\<close>, with its marked descendant \<open>w/api/users\<close>, is
  not returned by a search of \<open>w\<close> with \<open>maxDepth = 0\<close>, nor by a later search with
  \<open>maxDepth = 5\<close> that is served from the cache.
\<close>

theorem marked_directory_not_returned:
  "hasMarker exampleFs [''w'', ''api'', ''users'']
   \<and> hasMarker exampleFs [''w'', ''api'', ''users'', ''v2'']
   \<and> strict_prefix [''w'', ''api'', ''users''] [''w'', ''api'', ''users'', ''v2'']
   \<and> returned (discoverCollections exampleFs 0 5 freshManager [''w''] (Number 5))
         = [[''w'', ''api'']]
   \<and> hasMarker exampleFs [''w'', ''api'']
   \<and> strict_prefix [''w'', ''api''] [''w'', ''api'', ''users'']
   \<and> returned (discoverCollections exampleFs 0 5 freshManager [''w''] (Number 0)) = []
   \<and> returned (discoverCollections exampleFs 10 15
                 (snd (discoverCollections exampleFs 0 5 freshManager [''w''] (Number 0)))
                 [''w''] (Number 5)) = []"
  by (simp add: strict_prefix_def hasMarker_def returned_def discoverCollections_def
      getCachedCollectionDiscovery_def cacheCollectionDiscovery_def freshManager_def
      Cache_get_def Cache_set_def Cache_new_def searchDirectory.simps exampleFs_def readdir_def
      nodeAt_def hasBrunoJson_def searchable_def startsWith_def)

section \<open>The cache: expiry, and what a cached discovery returns\<close>

lemma map_of_update_same: "map_of (AList.update k e xs) k = Some e"
  by (simp add: update_conv')

lemma key_in_update: "k \<in> fst ` set (AList.update k e xs)"
  by (induction xs) auto

text \<open>
  Claim C7: in a cache of any TTL and any content, \<open>get(k)\<close> at time \<open>t1\<close> after
  \<open>set(k, v)\<close> at time \<open>t0\<close> returns \<open>v\<close> as long as no more than the TTL has elapsed (and
  the statistics list \<open>k\<close>). Once more than the TTL has elapsed, \<open>get(k)\<close> returns absence
  and evicts the entry: statistics taken afterwards, at any time \<open>t2\<close>, have a key list
  without \<open>k\<close> and a size that counts exactly the live entries under other keys.
\<close>

theorem cache_set_get_expiry:
  "(t1 - t0 \<le> ttl c \<longrightarrow>
      fst (Cache_get t1 k (Cache_set t0 k v c)) = Some v
      \<and> k \<in> set (keys (fst (Cache_getStats t1 (Cache_set t0 k v c)))))
   \<and> (t1 - t0 > ttl c \<longrightarrow>
      fst (Cache_get t1 k (Cache_set t0 k v c)) = None
      \<and> k \<notin> set (keys (fst (Cache_getStats t2 (snd (Cache_get t1 k (Cache_set t0 k v c))))))
      \<and> stats_size (fst (Cache_getStats t2 (snd (Cache_get t1 k (Cache_set t0 k v c)))))
          = length (keys (fst (Cache_getStats t2 (snd (Cache_get t1 k (Cache_set t0 k v c))))))
      \<and> stats_size (fst (Cache_getStats t2 (snd (Cache_get t1 k (Cache_set t0 k v c)))))
          = length (filter (\<lambda>(key, entry). k \<noteq> key \<and> \<not> (t2 - timestamp entry > ttl c)) (cache c)))"
proof (intro conjI impI)
  assume live: "t1 - t0 \<le> ttl c"
  then show "fst (Cache_get t1 k (Cache_set t0 k v c)) = Some v"
    by (simp add: Cache_get_def Cache_set_def map_of_update_same)
  have "(k, \<lparr>data = v, timestamp = t0, hits = 0\<rparr>)
          \<in> set (AList.update k \<lparr>data = v, timestamp = t0, hits = 0\<rparr> (cache c))"
    using map_of_update_same[of k "\<lparr>data = v, timestamp = t0, hits = 0\<rparr>" "cache c"]
    by (meson map_of_SomeD)
  with live show "k \<in> set (keys (fst (Cache_getStats t1 (Cache_set t0 k v c))))"
    by (force simp: Cache_getStats_def Cache_cleanup_def Cache_set_def Let_def)
next
  assume dead: "t1 - t0 > ttl c"
  then have after: "snd (Cache_get t1 k (Cache_set t0 k v c)) = c\<lparr>cache := AList.delete k (cache c)\<rparr>"
    by (simp add: Cache_get_def Cache_set_def map_of_update_same delete_update_same)
  from dead show "fst (Cache_get t1 k (Cache_set t0 k v c)) = None"
    by (simp add: Cache_get_def Cache_set_def map_of_update_same)
  show "k \<notin> set (keys (fst (Cache_getStats t2 (snd (Cache_get t1 k (Cache_set t0 k v c))))))"
    by (auto simp: after Cache_getStats_def Cache_cleanup_def Let_def AList.delete_eq)
  show "stats_size (fst (Cache_getStats t2 (snd (Cache_get t1 k (Cache_set t0 k v c)))))
          = length (keys (fst (Cache_getStats t2 (snd (Cache_get t1 k (Cache_set t0 k v c))))))"
    by (simp add: Cache_getStats_def Let_def)
  show "stats_size (fst (Cache_getStats t2 (snd (Cache_get t1 k (Cache_set t0 k v c)))))
          = length (filter (\<lambda>(key, entry). k \<noteq> key \<and> \<not> (t2 - timestamp entry > ttl c)) (cache c))"
    by (simp add: after Cache_getStats_def Cache_cleanup_def Let_def AList.delete_eq
        case_prod_unfold conj_commute)
qed

text \<open>A cache with a TTL of five seconds that already holds one entry.\<close>

definition warmCache :: "(string, nat) Cache" where
  "warmCache = Cache_set 900 ''b'' 3 (Cache_new 5000)"

theorem cache_set_get_expiry_witness:
  "(3000::int) - 1000 \<le> ttl warmCache
   \<and> fst (Cache_get 3000 ''a'' (Cache_set 1000 ''a'' 7 warmCache)) = Some 7
   \<and> ''a'' \<in> set (keys (fst (Cache_getStats 3000 (Cache_set 1000 ''a'' 7 warmCache))))
   \<and> (6001::int) - 1000 > ttl warmCache
   \<and> fst (Cache_get 6001 ''a'' (Cache_set 1000 ''a'' 7 warmCache)) = None
   \<and> ''a'' \<notin> set (keys (fst (Cache_getStats 6001
                         (snd (Cache_get 6001 ''a'' (Cache_set 1000 ''a'' 7 warmCache))))))
   \<and> stats_size (fst (Cache_getStats 6001
                         (snd (Cache_get 6001 ''a'' (Cache_set 1000 ''a'' 7 warmCache))))) = 0"
proof -
  have live: "(3000::int) - 1000 \<le> ttl warmCache" and dead: "(6001::int) - 1000 > ttl warmCache"
    by (simp_all add: warmCache_def Cache_set_def Cache_new_def)
  note a = cache_set_get_expiry[of 3000 1000 warmCache "''a''" "7::nat" 0]
  note b = cache_set_get_expiry[of 6001 1000 warmCache "''a''" "7::nat" 6001]
  have none_left:
    "length (filter (\<lambda>(key, entry). ''a'' \<noteq> key \<and> \<not> (6001 - timestamp entry > ttl warmCache))
                  (cache warmCache)) = 0"
    by (simp add: warmCache_def Cache_set_def Cache_new_def)
  from a live
  have a1: "fst (Cache_get 3000 ''a'' (Cache_set 1000 ''a'' 7 warmCache)) = Some 7"
    and a2: "''a'' \<in> set (keys (fst (Cache_getStats 3000 (Cache_set 1000 ''a'' 7 warmCache))))"
    by blast+
  from b dead
  have b1: "fst (Cache_get 6001 ''a'' (Cache_set 1000 ''a'' 7 warmCache)) = None"
    and b2: "''a'' \<notin> set (keys (fst (Cache_getStats 6001
                         (snd (Cache_get 6001 ''a'' (Cache_set 1000 ''a'' 7 warmCache))))))"
    and b3: "stats_size (fst (Cache_getStats 6001
                         (snd (Cache_get 6001 ''a'' (Cache_set 1000 ''a'' 7 warmCache)))))
        = length (filter (\<lambda>(key, entry). ''a'' \<noteq> key \<and> \<not> (6001 - timestamp entry > ttl warmCache))
                  (cache warmCache))"
    by blast+
  have b4: "stats_size (fst (Cache_getStats 6001
                         (snd (Cache_get 6001 ''a'' (Cache_set 1000 ''a'' 7 warmCache))))) = 0"
    by (rule trans[OF b3 none_left])
  from live dead a1 a2 b1 b2 b4 show ?thesis by blast
qed

text \<open>
  Claim C4 at a concrete input: the discovery cache is keyed by the search path alone, so
  after \<open>discoverCollections(w, 5)\<close> the call \<open>discoverCollections(w, 0)\<close> is served the
  list computed under depth 5 and reads nothing, while the same call on an empty cache
  reads only \<open>w\<close> and returns the empty list.
\<close>

theorem cached_discovery_ignores_maxDepth:
  "returned (discoverCollections exampleFs 0 5 freshManager [''w''] (Number 5)) = [[''w'', ''api'']]
   \<and> returned (discoverCollections exampleFs 10 15
                 (snd (discoverCollections exampleFs 0 5 freshManager [''w''] (Number 5)))
                 [''w''] (Number 0))
         = [[''w'', ''api'']]
   \<and> dirsRead (discoverCollections exampleFs 10 15
                 (snd (discoverCollections exampleFs 0 5 freshManager [''w''] (Number 5)))
                 [''w''] (Number 0)) = []
   \<and> returned (discoverCollections exampleFs 10 15 freshManager [''w''] (Number 0)) = []
   \<and> dirsRead (discoverCollections exampleFs 10 15 freshManager [''w''] (Number 0)) = [[''w'']]"
  by (simp add: returned_def dirsRead_def discoverCollections_def getCachedCollectionDiscovery_def
      cacheCollectionDiscovery_def freshManager_def Cache_get_def Cache_set_def Cache_new_def
      searchDirectory.simps exampleFs_def readdir_def nodeAt_def hasBrunoJson_def searchable_def
      startsWith_def)

section \<open>Result normalisation: parseRunResult\<close>

text \<open>
  A JavaScript value as \<open>JSON.parse\<close> produces it, with \<open>undefined\<close> for a property that is
  not there. An object is the association list of its own properties.
\<close>

datatype json =
    JUndefined
  | JNull
  | JBool bool
  | JNum real
  | JStr string
  | JArr "json list"
  | JObj "(string \<times> json) list"

fun truthy :: "json \<Rightarrow> bool" where
  "truthy JUndefined = False"
| "truthy JNull = False"
| "truthy (JBool b) = b"
| "truthy (JNum n) = (n \<noteq> 0)"
| "truthy (JStr s) = (s \<noteq> [])"
| "truthy (JArr xs) = True"
| "truthy (JObj kvs) = True"

text \<open>\<open>a || b\<close>\<close>

definition orElse :: "json \<Rightarrow> json \<Rightarrow> json" where
  "orElse a b = (if truthy a then a else b)"

text \<open>
  \<open>v.key\<close> for the property names read below: only an object has them. On \<open>null\<close> and
  \<open>undefined\<close> the access throws a TypeError; the callers below test \<open>nullish\<close> where
  the source reads a property of a value it has not checked.
\<close>

fun propOf :: "json \<Rightarrow> string \<Rightarrow> json" where
  "propOf (JObj kvs) key = (case map_of kvs key of Some v \<Rightarrow> v | None \<Rightarrow> JUndefined)"
| "propOf v key = JUndefined"

definition nullish :: "json \<Rightarrow> bool" where
  "nullish v = (v = JNull \<or> v = JUndefined)"

definition isArray :: "json \<Rightarrow> bool" where
  "isArray v = (case v of JArr xs \<Rightarrow> True | _ \<Rightarrow> False)"

definition elements :: "json \<Rightarrow> json list" where
  "elements v = (case v of JArr xs \<Rightarrow> xs | _ \<Rightarrow> [])"

text \<open>\<open>xs.map(f)\<close> where \<open>f\<close> may throw: the first exception ends the map.\<close>

fun mapThrowing :: "('a \<Rightarrow> 'b option) \<Rightarrow> 'a list \<Rightarrow> 'b list option" where
  "mapThrowing f [] = Some []"
| "mapThrowing f (x # xs) =
     (case f x of None \<Rightarrow> None
      | Some y \<Rightarrow> (case mapThrowing f xs of None \<Rightarrow> None | Some ys \<Rightarrow> Some (y # ys)))"

text \<open>One element of \<open>testResults\<close> (or \<open>tests\<close>, or \<open>assertions\<close>).\<close>

definition mapTestResult :: "json \<Rightarrow> json option" where
  "mapTestResult t =
     (if nullish t then None
      else Some (JObj
        [(''name'', orElse (orElse (propOf t ''description'') (propOf t ''name'')) (propOf t ''test'')),
         (''passed'', JBool (propOf t ''status'' = JStr ''pass'' \<or> propOf t ''passed'' = JBool True)),
         (''error'', if propOf t ''status'' = JStr ''fail''
                     then orElse (propOf t ''error'') (propOf t ''message'') else JUndefined)]))"

text \<open>One element of \<open>assertionResults\<close>.\<close>

definition mapAssertionResult :: "json \<Rightarrow> json option" where
  "mapAssertionResult a =
     (if nullish a then None
      else Some (JObj
        [(''name'', orElse (propOf a ''description'') (propOf a ''name'')),
         (''passed'', JBool (propOf a ''status'' = JStr ''pass'' \<or> propOf a ''passed'' = JBool True)),
         (''error'', if propOf a ''status'' = JStr ''fail''
                     then orElse (propOf a ''error'') (propOf a ''message'') else JUndefined)]))"

text \<open>The callback of \<open>jsonResult.results.map\<close>.\<close>

definition mapResult :: "json \<Rightarrow> json option" where
  "mapResult r =
     (if nullish r then None
      else
        let testResults = orElse (orElse (propOf r ''testResults'') (propOf r ''tests'')) (propOf r ''assertions'');
            assertionResults = orElse (propOf r ''assertionResults'') (JArr [])
        in case (if isArray testResults then mapThrowing mapTestResult (elements testResults)
                 else Some []) of
             None \<Rightarrow> None
           | Some fromTests \<Rightarrow>
              (case (if isArray assertionResults
                     then mapThrowing mapAssertionResult (elements assertionResults)
                     else Some []) of
                 None \<Rightarrow> None
               | Some fromAssertions \<Rightarrow>
                  (let allTests = fromTests @ fromAssertions
                   in Some (JObj
                     ([(''name'', orElse (orElse (orElse (propOf r ''suitename'') (propOf r ''name''))
                                            (propOf (propOf r ''test'') ''filename'')) (JStr ''Unknown'')),
                       (''passed'', JBool (nullish (propOf r ''error''))),
                       (''status'', orElse (propOf (propOf r ''response'') ''status'') (JNum 0)),
                       (''duration'', orElse (orElse (propOf (propOf r ''response'') ''responseTime'')
                                                (propOf r ''runtime'')) (JNum 0)),
                       (''error'', propOf r ''error'')]
                      @ (if truthy (propOf r ''request'')
                         then [(''request'', JObj
                                 [(''method'', propOf (propOf r ''request'') ''method''),
                                  (''url'', propOf (propOf r ''request'') ''url''),
                                  (''headers'', propOf (propOf r ''request'') ''headers''),
                                  (''body'', orElse (propOf (propOf r ''request'') ''body'')
                                                    (propOf (propOf r ''request'') ''data''))])]
                         else [])
                      @ (if truthy (propOf r ''response'')
                         then [(''response'', JObj
                                 [(''status'', propOf (propOf r ''response'') ''status''),
                                  (''statusText'', propOf (propOf r ''response'') ''statusText''),
                                  (''headers'', propOf (propOf r ''response'') ''headers''),
                                  (''body'', orElse (propOf (propOf r ''response'') ''data'')
                                                    (propOf (propOf r ''response'') ''body'')),
                                  (''responseTime'', propOf (propOf r ''response'') ''responseTime'')])]
                         else [])
                      @ (if allTests \<noteq> [] then [(''assertions'', JArr allTests)] else []))))))"

text \<open>\<open>parseItems\<close>: the alternative structure. A truthy \<open>item.tests\<close> that is no array has no \<open>map\<close>.\<close>

definition mapItemTest :: "json \<Rightarrow> json option" where
  "mapItemTest t =
     (if nullish t then None
      else Some (JObj
        [(''name'', orElse (propOf t ''name'') (propOf t ''test'')),
         (''passed'', if truthy (propOf t ''passed'') then propOf t ''passed''
                      else JBool (propOf t ''status'' = JStr ''passed'')),
         (''error'', propOf t ''error'')]))"

definition mapItem :: "json \<Rightarrow> json option" where
  "mapItem item =
     (if nullish item then None
      else case (if truthy (propOf item ''tests'')
                 then (if isArray (propOf item ''tests'')
                       then map_option Some (mapThrowing mapItemTest (elements (propOf item ''tests'')))
                       else None)
                 else Some None) of
             None \<Rightarrow> None
           | Some assertions \<Rightarrow>
               Some (JObj
                 ([(''name'', orElse (propOf item ''name'') (JStr ''Unknown'')),
                   (''passed'', JBool (propOf item ''status'' = JStr ''passed''
                                       \<or> propOf item ''passed'' \<noteq> JBool False)),
                   (''status'', orElse (propOf (propOf item ''response'') ''status'') (JNum 0)),
                   (''duration'', orElse (propOf item ''duration'') (JNum 0))]
                  @ (if truthy (propOf item ''request'')
                     then [(''request'', JObj
                             [(''method'', propOf (propOf item ''request'') ''method''),
                              (''url'', propOf (propOf item ''request'') ''url''),
                              (''headers'', propOf (propOf item ''request'') ''headers''),
                              (''body'', propOf (propOf item ''request'') ''body'')])]
                     else [])
                  @ (if truthy (propOf item ''response'')
                     then [(''response'', JObj
                             [(''status'', propOf (propOf item ''response'') ''status''),
                              (''statusText'', propOf (propOf item ''response'') ''statusText''),
                              (''headers'', propOf (propOf item ''response'') ''headers''),
                              (''body'', orElse (propOf (propOf item ''response'') ''body'')
                                                (propOf (propOf item ''response'') ''data'')),
                              (''responseTime'', orElse (propOf (propOf item ''response'') ''time'')
                                                        (propOf (propOf item ''response'') ''responseTime''))])]
                     else [])
                  @ (case assertions of None \<Rightarrow> [] | Some ts \<Rightarrow> [(''assertions'', JArr ts)]))))"

definition parseItems :: "json list \<Rightarrow> json list option" where
  "parseItems items = mapThrowing mapItem items"

text \<open>The process result handed in by execa, and the run result handed out.\<close>

record ExecResult =
  stdout :: string
  stderr :: string
  exitCode :: int

record Summary =
  totalRequests :: json
  passedRequests :: json
  failedRequests :: json
  totalDuration :: json

record BrunoRunResult =
  run_stdout :: string
  run_stderr :: string
  run_exitCode :: int
  summary :: "Summary option"
  results :: "json list option"

text \<open>
  The payload read: the JSON artifact if it is truthy, else what \<open>tryParseJson\<close> finds in
  stdout (passed in; \<open>null\<close> when it finds nothing); a non-empty array is unwrapped to its
  first element.
\<close>

definition payloadOf :: "(string \<Rightarrow> json) \<Rightarrow> ExecResult \<Rightarrow> json \<Rightarrow> json" where
  "payloadOf tryParseJson result jsonOutput =
     (let jsonResult = orElse jsonOutput (tryParseJson (stdout result))
      in case jsonResult of
           JArr (first # rest) \<Rightarrow> first
         | _ \<Rightarrow> jsonResult)"

text \<open>\<open>parseRunResult\<close>; \<open>None\<close> is a TypeError thrown while mapping.\<close>

definition parseRunResult :: "(string \<Rightarrow> json) \<Rightarrow> ExecResult \<Rightarrow> json \<Rightarrow> BrunoRunResult option" where
  "parseRunResult tryParseJson result jsonOutput =
     (let runResult = \<lparr>run_stdout = stdout result, run_stderr = stderr result,
                       run_exitCode = exitCode result, summary = None, results = None\<rparr>;
          jsonResult = payloadOf tryParseJson result jsonOutput
      in if \<not> truthy jsonResult then Some runResult
         else
           let s = propOf jsonResult ''summary'';
               runResult1 =
                 (if truthy s
                  then runResult\<lparr>summary := Some
                         \<lparr>totalRequests = orElse (orElse (propOf s ''totalRequests'') (propOf s ''total'')) (JNum 0),
                          passedRequests = orElse (orElse (propOf s ''passedRequests'') (propOf s ''passed'')) (JNum 0),
                          failedRequests = orElse (orElse (propOf s ''failedRequests'') (propOf s ''failed'')) (JNum 0),
                          totalDuration = orElse (orElse (propOf s ''totalDuration'') (propOf s ''duration'')) (JNum 0)\<rparr>\<rparr>
                  else runResult)
           in case (if truthy (propOf jsonResult ''results'') \<and> isArray (propOf jsonResult ''results'')
                    then map_option Some (mapThrowing mapResult (elements (propOf jsonResult ''results'')))
                    else Some None) of
                None \<Rightarrow> None
              | Some rs \<Rightarrow>
                  (let runResult2 = runResult1\<lparr>results := rs\<rparr>
                   in if results runResult2 = None \<and> truthy (propOf jsonResult ''items'')
                         \<and> isArray (propOf jsonResult ''items'')
                      then (case parseItems (elements (propOf jsonResult ''items'')) of
                              None \<Rightarrow> None
                            | Some items \<Rightarrow> Some (runResult2\<lparr>results := Some items\<rparr>))
                      else Some runResult2))"

text \<open>
  Example inputs: a run whose stdout holds no JSON, and three artifacts with one result
  each: one without a summary, one with an empty summary and one whose summary counts 5.
\<close>

definition noStdoutJson :: "string \<Rightarrow> json" where
  "noStdoutJson s = JNull"

definition execOk :: ExecResult where
  "execOk = \<lparr>stdout = '''', stderr = '''', exitCode = 0\<rparr>"

definition oneResult :: json where
  "oneResult = JObj [(''name'', JStr ''Get Users''), (''error'', JNull)]"

definition oneResultOut :: json where
  "oneResultOut = JObj [(''name'', JStr ''Get Users''), (''passed'', JBool True),
                        (''status'', JNum 0), (''duration'', JNum 0), (''error'', JNull)]"

definition payloadNoSummary :: json where
  "payloadNoSummary = JArr [JObj [(''results'', JArr [oneResult])]]"

definition payloadEmptySummary :: json where
  "payloadEmptySummary = JArr [JObj [(''summary'', JObj []), (''results'', JArr [oneResult])]]"

definition payloadSummaryFive :: json where
  "payloadSummaryFive =
     JArr [JObj [(''summary'', JObj [(''total'', JNum 5)]), (''results'', JArr [oneResult])]]"

lemma mapThrowing_length: "mapThrowing f xs = Some ys \<Longrightarrow> length ys = length xs"
  by (induction xs arbitrary: ys) (auto split: option.splits)

lemmas parse_eval = parseRunResult_def payloadOf_def orElse_def noStdoutJson_def execOk_def
  oneResult_def oneResultOut_def isArray_def elements_def mapResult_def nullish_def Let_def
  parseItems_def

text \<open>
  Claim C3 as stated fails: the summary is never computed from \<open>results\<close>. A payload with
  one result and no summary yields no summary at all; with an empty summary object the
  total is 0 although there is one result.
\<close>

theorem summary_not_folded_from_results:
  "parseRunResult noStdoutJson execOk payloadNoSummary
     = Some \<lparr>run_stdout = '''', run_stderr = '''', run_exitCode = 0, summary = None,
              results = Some [oneResultOut]\<rparr>
   \<and> parseRunResult noStdoutJson execOk payloadEmptySummary
     = Some \<lparr>run_stdout = '''', run_stderr = '''', run_exitCode = 0,
              summary = Some \<lparr>totalRequests = JNum 0, passedRequests = JNum 0,
                              failedRequests = JNum 0, totalDuration = JNum 0\<rparr>,
              results = Some [oneResultOut]\<rparr>"
  by (simp add: parse_eval payloadNoSummary_def payloadEmptySummary_def)

text \<open>
  Claim C3, as the code has it: whenever \<open>parseRunResult\<close> returns, the output has a summary
  exactly when the payload read (artifact or stdout JSON, unwrapped) is truthy and has a
  truthy \<open>summary\<close>; its \<open>totalRequests\<close> is then \<open>summary.totalRequests\<close> if truthy, else
  \<open>summary.total\<close> if truthy, else 0. When the payload's \<open>results\<close> is an array, the output
  has as many results as that array. The summary is copied, never derived from the
  results.
\<close>

theorem parseRunResult_summary_copied:
  assumes ret: "parseRunResult tryParseJson result jsonOutput = Some out"
  shows "(summary out \<noteq> None \<longleftrightarrow>
            truthy (payloadOf tryParseJson result jsonOutput)
            \<and> truthy (propOf (payloadOf tryParseJson result jsonOutput) ''summary''))
       \<and> (truthy (payloadOf tryParseJson result jsonOutput)
            \<and> truthy (propOf (payloadOf tryParseJson result jsonOutput) ''summary'') \<longrightarrow>
          map_option totalRequests (summary out)
            = Some (orElse (orElse
                      (propOf (propOf (payloadOf tryParseJson result jsonOutput) ''summary'') ''totalRequests'')
                      (propOf (propOf (payloadOf tryParseJson result jsonOutput) ''summary'') ''total''))
                      (JNum 0)))
       \<and> (truthy (payloadOf tryParseJson result jsonOutput)
            \<and> propOf (payloadOf tryParseJson result jsonOutput) ''results'' = JArr rs \<longrightarrow>
          map_option length (results out) = Some (length rs))"
proof -
  let ?p = "payloadOf tryParseJson result jsonOutput"
  let ?s = "propOf ?p ''summary''"
  have sm: "summary out =
              (if truthy ?p \<and> truthy ?s
               then Some \<lparr>totalRequests = orElse (orElse (propOf ?s ''totalRequests'') (propOf ?s ''total'')) (JNum 0),
                          passedRequests = orElse (orElse (propOf ?s ''passedRequests'') (propOf ?s ''passed'')) (JNum 0),
                          failedRequests = orElse (orElse (propOf ?s ''failedRequests'') (propOf ?s ''failed'')) (JNum 0),
                          totalDuration = orElse (orElse (propOf ?s ''totalDuration'') (propOf ?s ''duration'')) (JNum 0)\<rparr>
               else None)"
    using ret by (auto simp: parseRunResult_def Let_def split: if_splits option.splits)
  have rs: "map_option length (results out) = Some (length rs)"
    if "truthy ?p" "propOf ?p ''results'' = JArr rs"
  proof -
    from that have "isArray (propOf ?p ''results'')" "elements (propOf ?p ''results'') = rs"
      "truthy (propOf ?p ''results'')"
      by (simp_all add: isArray_def elements_def)
    with ret that(1) show ?thesis
      by (auto simp: parseRunResult_def Let_def split: if_splits option.splits
          dest: mapThrowing_length)
  qed
  show ?thesis using sm rs by simp
qed

theorem parseRunResult_summary_copied_witness:
  "parseRunResult noStdoutJson execOk payloadSummaryFive
     = Some \<lparr>run_stdout = '''', run_stderr = '''', run_exitCode = 0,
              summary = Some \<lparr>totalRequests = JNum 5, passedRequests = JNum 0,
                              failedRequests = JNum 0, totalDuration = JNum 0\<rparr>,
              results = Some [oneResultOut]\<rparr>
   \<and> truthy (payloadOf noStdoutJson execOk payloadSummaryFive)
   \<and> truthy (propOf (payloadOf noStdoutJson execOk payloadSummaryFive) ''summary'')
   \<and> propOf (payloadOf noStdoutJson execOk payloadSummaryFive) ''results'' = JArr [oneResult]
   \<and> map_option totalRequests
         (summary \<lparr>run_stdout = '''', run_stderr = '''', run_exitCode = 0,
              summary = Some \<lparr>totalRequests = JNum 5, passedRequests = JNum 0,
                              failedRequests = JNum 0, totalDuration = JNum 0\<rparr>,
              results = Some [oneResultOut]\<rparr>) = Some (JNum 5)
   \<and> map_option length
         (results \<lparr>run_stdout = '''', run_stderr = '''', run_exitCode = 0,
              summary = Some \<lparr>totalRequests = JNum 5, passedRequests = JNum 0,
                              failedRequests = JNum 0, totalDuration = JNum 0\<rparr>,
              results = Some [oneResultOut]\<rparr>) = Some (length [oneResult])"
proof -
  have ret: "parseRunResult noStdoutJson execOk payloadSummaryFive
     = Some \<lparr>run_stdout = '''', run_stderr = '''', run_exitCode = 0,
              summary = Some \<lparr>totalRequests = JNum 5, passedRequests = JNum 0,
                              failedRequests = JNum 0, totalDuration = JNum 0\<rparr>,
              results = Some [oneResultOut]\<rparr>"
    by (simp add: parse_eval payloadSummaryFive_def)
  have t: "truthy (payloadOf noStdoutJson execOk payloadSummaryFive)"
    and s: "truthy (propOf (payloadOf noStdoutJson execOk payloadSummaryFive) ''summary'')"
    and r: "propOf (payloadOf noStdoutJson execOk payloadSummaryFive) ''results'' = JArr [oneResult]"
    by (simp_all add: payloadOf_def orElse_def noStdoutJson_def payloadSummaryFive_def)
  note c = parseRunResult_summary_copied[OF ret, of "[oneResult]"]
  from c t s r ret show ?thesis by simp
qed

lemma mapThrowing_returns: "(\<forall>x \<in> set xs. f x \<noteq> None) \<Longrightarrow> mapThrowing f xs \<noteq> None"
  by (induction xs) (auto split: option.splits)

text \<open>No element read as a test or assertion of \<open>r\<close> is \<open>null\<close>.\<close>

definition testsDefined :: "json \<Rightarrow> bool" where
  "testsDefined r =
     ((\<forall>t \<in> set (elements (orElse (orElse (propOf r ''testResults'') (propOf r ''tests''))
                                 (propOf r ''assertions''))). \<not> nullish t)
      \<and> (\<forall>a \<in> set (elements (orElse (propOf r ''assertionResults'') (JArr []))). \<not> nullish a))"

lemma mapResult_returns: "\<not> nullish r \<Longrightarrow> testsDefined r \<Longrightarrow> mapResult r \<noteq> None"
proof -
  assume r: "\<not> nullish r" and t: "testsDefined r"
  let ?T = "orElse (orElse (propOf r ''testResults'') (propOf r ''tests'')) (propOf r ''assertions'')"
  let ?A = "orElse (propOf r ''assertionResults'') (JArr [])"
  have "mapThrowing mapTestResult (elements ?T) \<noteq> None"
    using t by (intro mapThrowing_returns) (simp add: testsDefined_def mapTestResult_def)
  moreover have "mapThrowing mapAssertionResult (elements ?A) \<noteq> None"
    using t by (intro mapThrowing_returns) (simp add: testsDefined_def mapAssertionResult_def)
  ultimately show ?thesis
    using r by (auto simp: mapResult_def Let_def split: option.splits)
qed

text \<open>
  \<open>parseRunResult\<close> returns whenever the payload's \<open>results\<close> is an array without \<open>null\<close>
  elements whose tests and assertions are without \<open>null\<close> elements, and also whenever the
  payload has neither a \<open>results\<close> nor an \<open>items\<close> array.
\<close>

lemma parseRunResult_returns:
  assumes "isArray (propOf (payloadOf tryParseJson result jsonOutput) ''results'')
             \<and> (\<forall>r \<in> set (elements (propOf (payloadOf tryParseJson result jsonOutput) ''results'')).
                   \<not> nullish r \<and> testsDefined r)
           \<or> \<not> isArray (propOf (payloadOf tryParseJson result jsonOutput) ''results'')
             \<and> \<not> isArray (propOf (payloadOf tryParseJson result jsonOutput) ''items'')"
  shows "parseRunResult tryParseJson result jsonOutput \<noteq> None"
proof -
  let ?p = "payloadOf tryParseJson result jsonOutput"
  from assms consider
      (arr) "isArray (propOf ?p ''results'')"
            "\<forall>r \<in> set (elements (propOf ?p ''results'')). \<not> nullish r \<and> testsDefined r"
    | (none) "\<not> isArray (propOf ?p ''results'')" "\<not> isArray (propOf ?p ''items'')"
    by blast
  then show ?thesis
  proof cases
    case arr
    have m: "mapThrowing mapResult (elements (propOf ?p ''results'')) \<noteq> None"
      using arr(2) by (intro mapThrowing_returns) (simp add: mapResult_returns)
    from arr(1) have tr: "truthy (propOf ?p ''results'')"
      by (cases "propOf ?p ''results''") (simp_all add: isArray_def)
    from m obtain rs where "mapThrowing mapResult (elements (propOf ?p ''results'')) = Some rs"
      by blast
    with arr(1) tr show ?thesis
      by (simp add: parseRunResult_def Let_def)
  next
    case none
    then show ?thesis by (simp add: parseRunResult_def Let_def)
  qed
qed

section \<open>Regular expressions as the JavaScript engine runs them\<close>

text \<open>
  The parsers of \<open>getRequestDetails\<close>, \<open>parseEnvironmentVariables\<close> and \<open>parseBrunoFile\<close>
  are regular expressions. They are modelled by their syntax trees and a backtracking matcher that
  returns, for a start position, every way the expression can match there, in the order
  in which the JavaScript engine would try them; the engine's match is the first.
\<close>

datatype regex =
    Eps
  | Lit char
  | Cls "char \<Rightarrow> bool"
  | Seq regex regex
  | Alt regex regex
  | Star regex
  | Lazy regex
  | Grp nat regex
  | Bol
  | Eol
  | Start

text \<open>
  A position in the subject: the character before it (for \<open>^\<close>), the text from it on, and
  the capture groups set so far (latest first).
\<close>

record mstate =
  prev :: "char option"
  rest :: string
  groups :: "(nat \<times> string) list"

definition isLineTerminator :: "char \<Rightarrow> bool" where
  "isLineTerminator c = (c = CHR 0x0A \<or> c = CHR 0x0D)"

text \<open>\<open>\s\<close>, among the code units below 256.\<close>

definition isSpace :: "char \<Rightarrow> bool" where
  "isSpace c = (c = CHR 0x09 \<or> c = CHR 0x0A \<or> c = CHR 0x0B \<or> c = CHR 0x0C \<or> c = CHR 0x0D
                \<or> c = CHR '' '' \<or> c = CHR 0xA0)"

definition step :: "mstate \<Rightarrow> mstate" where
  "step s = s\<lparr>prev := Some (hd (rest s)), rest := tl (rest s)\<rparr>"

text \<open>
  \<open>Star\<close> is the greedy \<open>*\<close>: one more iteration is tried before stopping; \<open>Lazy\<close> is \<open>*?\<close>:
  stopping is tried first. An iteration that consumes nothing is rejected, as the
  language specification has it. \<open>Bol\<close> and \<open>Eol\<close> are \<open>^\<close> and \<open>$\<close> under the flag \<open>m\<close>;
  \<open>Start\<close> is \<open>^\<close> without that flag, the start of the subject.
\<close>

function rmatch :: "regex \<Rightarrow> mstate \<Rightarrow> mstate list" where
  "rmatch Eps s = [s]"
| "rmatch (Lit c) s = (case rest s of [] \<Rightarrow> [] | x # xs \<Rightarrow> if x = c then [step s] else [])"
| "rmatch (Cls P) s = (case rest s of [] \<Rightarrow> [] | x # xs \<Rightarrow> if P x then [step s] else [])"
| "rmatch (Seq a b) s = concat (map (rmatch b) (rmatch a s))"
| "rmatch (Alt a b) s = rmatch a s @ rmatch b s"
| "rmatch (Star a) s =
     concat (map (rmatch (Star a))
                 (filter (\<lambda>t. length (rest t) < length (rest s)) (rmatch a s))) @ [s]"
| "rmatch (Lazy a) s =
     s # concat (map (rmatch (Lazy a))
                     (filter (\<lambda>t. length (rest t) < length (rest s)) (rmatch a s)))"
| "rmatch (Grp n a) s =
     map (\<lambda>t. t\<lparr>groups := (n, take (length (rest s) - length (rest t)) (rest s)) # groups t\<rparr>)
         (rmatch a s)"
| "rmatch Bol s =
     (case prev s of None \<Rightarrow> [s] | Some c \<Rightarrow> if isLineTerminator c then [s] else [])"
| "rmatch Eol s =
     (case rest s of [] \<Rightarrow> [s] | x # xs \<Rightarrow> if isLineTerminator x then [s] else [])"
| "rmatch Start s = (case prev s of None \<Rightarrow> [s] | Some c \<Rightarrow> [])"
  by pat_completeness auto
termination
  by (relation "inv_image (less_than <*lex*> less_than) (\<lambda>(r, s). (size r, length (rest s)))")
     auto

declare rmatch.simps [simp del]

text \<open>
  \<open>search\<close>: the match of a regular expression without the flag \<open>g\<close> (\<open>String.match\<close>),
  or one \<open>exec\<close> from \<open>lastIndex\<close>: start positions are tried from left to right, and at the
  first position where the expression matches, its first match is taken.
\<close>

fun search :: "regex \<Rightarrow> char option \<Rightarrow> string \<Rightarrow> mstate option" where
  "search r p [] =
     (case rmatch r \<lparr>prev = p, rest = [], groups = []\<rparr> of [] \<Rightarrow> None | m # ms \<Rightarrow> Some m)"
| "search r p (c # cs) =
     (case rmatch r \<lparr>prev = p, rest = c # cs, groups = []\<rparr> of
        [] \<Rightarrow> search r (Some c) cs
      | m # ms \<Rightarrow> Some m)"

definition captureOf :: "mstate \<Rightarrow> nat \<Rightarrow> string option" where
  "captureOf m n = map_of (groups m) n"

fun lits :: "string \<Rightarrow> regex" where
  "lits [] = Eps"
| "lits (c # cs) = Seq (Lit c) (lits cs)"

definition anyChar :: "char \<Rightarrow> bool" where
  "anyChar c = True"

text \<open>\<open>label\s*\{([\s\S]*?)\n\}\<close>, the pattern of the meta, method, headers and body blocks.\<close>

definition blockRegex :: "string \<Rightarrow> regex" where
  "blockRegex label =
     Seq (lits label) (Seq (Star (Cls isSpace)) (Seq (Lit CHR ''{'')
       (Seq (Grp 1 (Lazy (Cls anyChar))) (lits ''\<newline>}''))))"

definition extractBlock :: "string \<Rightarrow> string \<Rightarrow> string option" where
  "extractBlock label content =
     (case search (blockRegex label) None content of
        None \<Rightarrow> None
      | Some m \<Rightarrow> captureOf m 1)"

subsection \<open>What the block pattern finds\<close>

text \<open>The text before the first newline that is directly followed by a closing brace.\<close>

fun untilClose :: "string \<Rightarrow> string option" where
  "untilClose [] = None"
| "untilClose (c # cs) =
     (if prefix ''\<newline>}'' (c # cs) then Some [] else map_option ((#) c) (untilClose cs))"

text \<open>
  A block that starts right here: the label, any white space, an opening brace, and the
  text up to the first newline-brace after it.
\<close>

definition blockAt :: "string \<Rightarrow> string \<Rightarrow> string option" where
  "blockAt label subject =
     (if prefix label subject
      then (case dropWhile isSpace (drop (length label) subject) of
              [] \<Rightarrow> None
            | c # r \<Rightarrow> if c = CHR ''{'' then untilClose r else None)
      else None)"

text \<open>The leftmost position at which such a block starts.\<close>

fun findBlock :: "string \<Rightarrow> string \<Rightarrow> string option" where
  "findBlock label [] = blockAt label []"
| "findBlock label (c # cs) =
     (case blockAt label (c # cs) of Some inner \<Rightarrow> Some inner | None \<Rightarrow> findBlock label cs)"

definition consume :: "string \<Rightarrow> mstate \<Rightarrow> mstate" where
  "consume u s = s\<lparr>prev := (if u = [] then prev s else Some (last u)),
                   rest := drop (length u) (rest s)\<rparr>"

lemma consume_Nil [simp]: "consume [] s = s"
  by (simp add: consume_def)

lemma consume_Cons: "rest s = x # xs \<Longrightarrow> consume (x # u) s = consume u (step s)"
  by (simp add: consume_def step_def)

lemma rest_consume [simp]: "rest (consume u s) = drop (length u) (rest s)"
  by (simp add: consume_def)

lemma groups_consume [simp]: "groups (consume u s) = groups s"
  by (simp add: consume_def)

lemma rest_step: "rest s = x # xs \<Longrightarrow> rest (step s) = xs"
  by (simp add: step_def)

lemma groups_step [simp]: "groups (step s) = groups s"
  by (simp add: step_def)

lemma rmatch_lits:
  "rmatch (lits l) s = (if prefix l (rest s) then [consume l s] else [])"
proof (induction l arbitrary: s)
  case Nil
  then show ?case by (simp add: rmatch.simps)
next
  case (Cons c l)
  show ?case
  proof (cases "rest s")
    case Nil
    then show ?thesis by (simp add: rmatch.simps)
  next
    case (Cons x xs)
    show ?thesis
    proof (cases "x = c")
      case True
      with Cons Cons.IH[of "step s"] show ?thesis
        by (simp add: rest_step consume_Cons rmatch.simps)
    next
      case False
      with Cons show ?thesis by (simp add: rmatch.simps)
    qed
  qed
qed

text \<open>
  A greedy run over a character class, followed by something that cannot start with a
  character of the class: only the longest run survives.
\<close>

lemma rmatch_Star_Cls_then:
  assumes vanish: "\<And>t x xs. rest t = x # xs \<Longrightarrow> P x \<Longrightarrow> f t = []"
  shows "concat (map f (rmatch (Star (Cls P)) s)) = f (consume (takeWhile P (rest s)) s)"
proof (induction "rest s" arbitrary: s)
  case Nil
  then show ?case by (simp add: rmatch.simps(6)[of _ s] rmatch.simps(3))
next
  case (Cons x xs)
  show ?case
  proof (cases "P x")
    case True
    have r: "rest (step s) = xs" using Cons(2)[symmetric] by (simp add: step_def)
    have "rmatch (Star (Cls P)) s = rmatch (Star (Cls P)) (step s) @ [s]"
      using Cons(2)[symmetric] True r by (simp add: rmatch.simps(6)[of _ s] rmatch.simps(3))
    moreover have "f s = []" using vanish[OF Cons(2)[symmetric] True] .
    moreover have "concat (map f (rmatch (Star (Cls P)) (step s)))
                     = f (consume (takeWhile P xs) (step s))"
      using Cons(1)[of "step s"] r by simp
    moreover have "consume (takeWhile P (rest s)) s = consume (takeWhile P xs) (step s)"
      using Cons(2)[symmetric] True by (simp add: consume_Cons)
    ultimately show ?thesis by simp
  next
    case False
    with Cons(2)[symmetric] show ?thesis by (simp add: rmatch.simps(6)[of _ s] rmatch.simps(3))
  qed
qed

definition firstOf :: "'a list \<Rightarrow> 'a option" where
  "firstOf xs = (case xs of [] \<Rightarrow> None | x # _ \<Rightarrow> Some x)"

lemma firstOf_simps [simp]:
  "firstOf [] = None" "firstOf (x # xs) = Some x"
  by (simp_all add: firstOf_def)

lemma firstOf_append: "firstOf (xs @ ys) = (case firstOf xs of Some x \<Rightarrow> Some x | None \<Rightarrow> firstOf ys)"
  by (cases xs) simp_all

lemma rmatch_rest_suffix: "t \<in> set (rmatch r s) \<Longrightarrow> suffix (rest t) (rest s)"
proof (induction r s arbitrary: t rule: rmatch.induct)
  case (2 c s)
  then show ?case by (auto simp: rmatch.simps step_def suffix_tl split: list.splits if_splits)
next
  case (3 P s)
  then show ?case by (auto simp: rmatch.simps step_def suffix_tl split: list.splits if_splits)
next
  case (4 a b s)
  from 4(3) obtain u where u: "u \<in> set (rmatch a s)" and t: "t \<in> set (rmatch b u)"
    by (auto simp: rmatch.simps(4))
  from "4.IH"(1)[OF u] "4.IH"(2)[OF u t] show ?case by (rule suffix_order.trans[rotated])
next
  case (5 a b s)
  then show ?case by (auto simp: rmatch.simps(5))
next
  case (6 a s)
  from 6(3) consider "t = s"
    | u where "u \<in> set (filter (\<lambda>t. length (rest t) < length (rest s)) (rmatch a s))"
        "t \<in> set (rmatch (Star a) u)"
    by (auto simp: rmatch.simps(6)[of a s])
  then show ?case
  proof cases
    case 1
    then show ?thesis by simp
  next
    case (2 u)
    from 2(1) have ua: "u \<in> set (rmatch a s)" by simp
    from "6.IH"(1)[OF ua] "6.IH"(2)[OF 2(1) 2(2)] show ?thesis
      by (rule suffix_order.trans[rotated])
  qed
next
  case (7 a s)
  from 7(3) consider "t = s"
    | u where "u \<in> set (filter (\<lambda>t. length (rest t) < length (rest s)) (rmatch a s))"
        "t \<in> set (rmatch (Lazy a) u)"
    by (auto simp: rmatch.simps(7)[of a s])
  then show ?case
  proof cases
    case 1
    then show ?thesis by simp
  next
    case (2 u)
    from 2(1) have ua: "u \<in> set (rmatch a s)" by simp
    from "7.IH"(1)[OF ua] "7.IH"(2)[OF 2(1) 2(2)] show ?thesis
      by (rule suffix_order.trans[rotated])
  qed
next
  case (8 n a s)
  then show ?case by (auto simp: rmatch.simps(8))
qed (auto simp: rmatch.simps split: option.splits list.splits if_splits)

text \<open>
  The lazy run inside captureOf \<open>n\<close>, followed by newline-brace: the first match captures the
  text up to the first newline-brace. \<open>pre\<close> is what the captureOf has taken before \<open>s\<close>.
\<close>

lemma lazy_group_close:
  "map_option (\<lambda>m. captureOf m n)
     (firstOf (concat (map (\<lambda>t. rmatch (lits ''\<newline>}'')
                               (t\<lparr>groups := (n, pre @ take (length (rest s) - length (rest t)) (rest s))
                                             # groups t\<rparr>))
                          (rmatch (Lazy (Cls anyChar)) s))))
   = map_option (\<lambda>inner. Some (pre @ inner)) (untilClose (rest s))"
proof (induction "rest s" arbitrary: s pre)
  case Nil
  then show ?case
    by (simp add: rmatch_lits rmatch.simps(7)[of _ s] rmatch.simps(3) del: lits.simps)
next
  case (Cons x xs)
  note rs = Cons(2)[symmetric]
  have r: "rest (step s) = xs" using rs by (simp add: step_def)
  have unf: "rmatch (Lazy (Cls anyChar)) s = s # rmatch (Lazy (Cls anyChar)) (step s)"
    using rs r by (simp add: anyChar_def rmatch.simps(7)[of _ s] rmatch.simps(3))
  let ?G = "\<lambda>pre s t. rmatch (lits ''\<newline>}'')
              (t\<lparr>groups := (n, pre @ take (length (rest s) - length (rest t)) (rest s)) # groups t\<rparr>)"
  have later: "map (?G pre s) (rmatch (Lazy (Cls anyChar)) (step s))
             = map (?G (pre @ [x]) (step s)) (rmatch (Lazy (Cls anyChar)) (step s))"
  proof (rule map_cong[OF refl])
    fix t assume "t \<in> set (rmatch (Lazy (Cls anyChar)) (step s))"
    from rmatch_rest_suffix[OF this] r have "length (rest t) \<le> length xs"
      by (auto dest: suffix_length_le)
    then have "length (rest s) - length (rest t) = Suc (length xs - length (rest t))"
      using rs by simp
    then have "pre @ take (length (rest s) - length (rest t)) (rest s)
             = (pre @ [x]) @ take (length (rest (step s)) - length (rest t)) (rest (step s))"
      by (simp add: rs r)
    then show "?G pre s t = ?G (pre @ [x]) (step s) t" by (simp only:)
  qed
  have split: "concat (map (?G pre s) (rmatch (Lazy (Cls anyChar)) s))
               = ?G pre s s @ concat (map (?G (pre @ [x]) (step s)) (rmatch (Lazy (Cls anyChar)) (step s)))"
    by (simp only: unf list.map concat.simps later)
  have "pre @ take (length (rest s) - length (rest s)) (rest s) = pre" by simp
  then have here: "?G pre s s = (if prefix ''\<newline>}'' (rest s)
                 then [consume ''\<newline>}'' (s\<lparr>groups := (n, pre) # groups s\<rparr>)] else [])"
    by (simp only: rmatch_lits) simp
  note ih = Cons(1)[of "step s" "pre @ [x]", OF r[symmetric]]
  show ?case
  proof (cases "prefix ''\<newline>}'' (rest s)")
    case True
    have "firstOf (concat (map (?G pre s) (rmatch (Lazy (Cls anyChar)) s)))
            = Some (consume ''\<newline>}'' (s\<lparr>groups := (n, pre) # groups s\<rparr>))"
      unfolding split here using True by (simp only: if_True append_Cons firstOf_simps)
    moreover have "captureOf (consume ''\<newline>}'' (s\<lparr>groups := (n, pre) # groups s\<rparr>)) n = Some pre"
      by (simp add: captureOf_def)
    moreover have "untilClose (rest s) = Some []"
      using True unfolding rs by (simp only: untilClose.simps if_True)
    ultimately show ?thesis by (simp only: option.map append_Nil2)
  next
    case False
    have "firstOf (concat (map (?G pre s) (rmatch (Lazy (Cls anyChar)) s)))
            = firstOf (concat (map (?G (pre @ [x]) (step s)) (rmatch (Lazy (Cls anyChar)) (step s))))"
      unfolding split here using False by (simp only: if_False append_Nil)
    then have "map_option (\<lambda>m. captureOf m n)
                 (firstOf (concat (map (?G pre s) (rmatch (Lazy (Cls anyChar)) s))))
             = map_option (\<lambda>inner. Some ((pre @ [x]) @ inner)) (untilClose (rest (step s)))"
      by (simp only: ih)
    also have "\<dots> = map_option (\<lambda>inner. Some (pre @ inner)) (map_option ((#) x) (untilClose (rest (step s))))"
      by (simp add: option.map_comp comp_def)
    also have "map_option ((#) x) (untilClose (rest (step s))) = untilClose (rest s)"
      using False unfolding rs r by (simp only: untilClose.simps if_False)
    finally show ?thesis .
  qed
qed

lemma rmatch_block_tail:
  "map_option (\<lambda>m. captureOf m n)
     (firstOf (rmatch (Seq (Grp n (Lazy (Cls anyChar))) (lits ''\<newline>}'')) s))
   = map_option Some (untilClose (rest s))"
proof -
  have eq: "rmatch (Seq (Grp n (Lazy (Cls anyChar))) (lits ''\<newline>}'')) s
          = concat (map (\<lambda>t. rmatch (lits ''\<newline>}'')
                               (t\<lparr>groups := (n, take (length (rest s) - length (rest t)) (rest s))
                                             # groups t\<rparr>))
                          (rmatch (Lazy (Cls anyChar)) s))"
    by (simp add: rmatch.simps(4) rmatch.simps(8) comp_def del: lits.simps)
  show ?thesis
    unfolding eq using lazy_group_close[of n "[]" s] by (simp del: lits.simps)
qed

lemma first_group:
  assumes "map_option f (firstOf xs) = map_option Some y"
  shows "(case xs of [] \<Rightarrow> None | m # ms \<Rightarrow> f m) = y"
  using assms by (cases xs; cases y) simp_all

lemma not_isSpace_brace: "\<not> isSpace CHR ''{''"
  by (simp add: isSpace_def)

lemma rmatch_block:
  "map_option (\<lambda>m. captureOf m 1) (firstOf (rmatch (blockRegex label) s))
     = map_option Some (blockAt label (rest s))"
proof (cases "prefix label (rest s)")
  case False
  then show ?thesis
    by (simp add: blockRegex_def rmatch.simps(4) rmatch_lits blockAt_def del: lits.simps)
next
  case True
  let ?K3 = "Seq (Grp 1 (Lazy (Cls anyChar))) (lits ''\<newline>}'')"
  let ?K2 = "Seq (Lit CHR ''{'') ?K3"
  let ?s1 = "consume label s"
  let ?s2 = "consume (takeWhile isSpace (rest ?s1)) ?s1"
  have r2: "rest ?s2 = dropWhile isSpace (drop (length label) (rest s))"
    by (simp add: dropWhile_eq_drop)
  have at: "blockAt label (rest s)
              = (case rest ?s2 of [] \<Rightarrow> None
                 | c # r \<Rightarrow> if c = CHR ''{'' then untilClose r else None)"
    unfolding r2 using True by (simp add: blockAt_def)
  have vanish: "rmatch ?K2 t = []" if "rest t = x # xs" "isSpace x" for t x xs
    using that not_isSpace_brace by (auto simp: rmatch.simps(4) rmatch.simps(2))
  have "rmatch (blockRegex label) s = concat (map (rmatch ?K2) (rmatch (Star (Cls isSpace)) ?s1))"
    using True by (simp add: blockRegex_def rmatch.simps(4) rmatch_lits del: lits.simps)
  also have "\<dots> = rmatch ?K2 ?s2"
    by (rule rmatch_Star_Cls_then) (rule vanish)
  finally have whole: "rmatch (blockRegex label) s = rmatch ?K2 ?s2" .
  show ?thesis
  proof (cases "rest ?s2")
    case Nil
    then have "rmatch ?K2 ?s2 = []" by (simp add: rmatch.simps(4) rmatch.simps(2))
    moreover have "blockAt label (rest s) = None"
      unfolding at using Nil by simp
    ultimately show ?thesis by (simp add: whole)
  next
    case (Cons c r)
    show ?thesis
    proof (cases "c = CHR ''{''")
      case False
      with Cons have "rmatch ?K2 ?s2 = []" by (simp add: rmatch.simps(4) rmatch.simps(2))
      moreover have "blockAt label (rest s) = None"
        unfolding at using Cons False by simp
      ultimately show ?thesis by (simp add: whole)
    next
      case brace: True
      let ?s3 = "step ?s2"
      have r3: "rest ?s3 = r" using Cons by (simp add: step_def)
      have "rmatch ?K2 ?s2 = rmatch ?K3 ?s3"
        using Cons brace
        by (simp add: rmatch.simps(4)[of "Lit CHR ''{''"] rmatch.simps(2) del: lits.simps One_nat_def)
      then have "map_option (\<lambda>m. captureOf m 1) (firstOf (rmatch ?K2 ?s2))
                      = map_option Some (untilClose (rest ?s3))"
        by (simp only: rmatch_block_tail)
      moreover have "blockAt label (rest s) = untilClose r"
        unfolding at using Cons brace by simp
      ultimately show ?thesis by (simp only: whole r3)
    qed
  qed
qed

lemma search_block:
  "(case search (blockRegex label) p subject of None \<Rightarrow> None | Some m \<Rightarrow> captureOf m 1)
     = findBlock label subject"
proof (induction subject arbitrary: p)
  case Nil
  let ?s = "\<lparr>prev = p, rest = [], groups = []\<rparr>"
  from first_group[OF rmatch_block[of label ?s]] show ?case
    by (cases "rmatch (blockRegex label) ?s") simp_all
next
  case (Cons c cs)
  let ?s = "\<lparr>prev = p, rest = c # cs, groups = []\<rparr>"
  show ?case
  proof (cases "rmatch (blockRegex label) ?s")
    case Nil
    with first_group[OF rmatch_block[of label ?s]] have "blockAt label (c # cs) = None" by simp
    with Nil Cons[of "Some c"] show ?thesis by simp
  next
    case (Cons m ms)
    with first_group[OF rmatch_block[of label ?s]] have g: "blockAt label (c # cs) = captureOf m 1"
      by simp
    from rmatch_block[of label ?s] Cons obtain i where i: "blockAt label (c # cs) = Some i"
      by (cases "blockAt label (c # cs)") simp_all
    from g i have "captureOf m 1 = Some i" by simp
    moreover from i have "findBlock label (c # cs) = Some i" by simp
    ultimately show ?thesis using Cons by (simp del: findBlock.simps)
  qed
qed

lemma extractBlock_findBlock: "extractBlock label content = findBlock label content"
  by (simp add: extractBlock_def search_block)

lemma untilClose_Some:
  "untilClose r = Some inner \<Longrightarrow>
     (\<exists>post. r = inner @ ''\<newline>}'' @ post) \<and> \<not> str_includes inner ''\<newline>}''"
proof (induction r arbitrary: inner)
  case Nil
  then show ?case by simp
next
  case (Cons c cs)
  show ?case
  proof (cases "prefix ''\<newline>}'' (c # cs)")
    case True
    with Cons.prems have "inner = []" by simp
    with True show ?thesis by (auto simp: prefix_def)
  next
    case False
    with Cons.prems obtain i where i: "untilClose cs = Some i" "inner = c # i" by auto
    from Cons.IH[OF i(1)] obtain post where post: "cs = i @ ''\<newline>}'' @ post"
      and ni: "\<not> str_includes i ''\<newline>}''" by blast
    have "\<not> prefix ''\<newline>}'' (c # i)"
    proof
      assume "prefix ''\<newline>}'' (c # i)"
      then obtain z where "c # i = ''\<newline>}'' @ z" by (auto simp: prefix_def)
      moreover have "c # cs = (c # i) @ ''\<newline>}'' @ post" using post by simp
      ultimately have "c # cs = ''\<newline>}'' @ (z @ ''\<newline>}'' @ post)"
        by (simp only: append_assoc)
      then have "prefix ''\<newline>}'' (c # cs)" by (rule prefixI)
      with False show False by simp
    qed
    with ni i(2) post show ?thesis by simp
  qed
qed

lemma untilClose_complete: "untilClose (body @ ''\<newline>}'' @ post) \<noteq> None"
  by (induction body) auto

lemma untilClose_exact:
  "\<not> str_includes body ''\<newline>}'' \<Longrightarrow> untilClose (body @ ''\<newline>}'' @ post) = Some body"
proof (induction body)
  case Nil
  then show ?case by simp
next
  case (Cons c cs)
  from Cons.prems have np: "\<not> prefix ''\<newline>}'' (c # cs)" and nc: "\<not> str_includes cs ''\<newline>}''"
    by simp_all
  have "\<not> prefix ''\<newline>}'' (c # cs @ ''\<newline>}'' @ post)"
  proof (cases cs)
    case Nil
    then show ?thesis by simp
  next
    case (Cons d ds)
    with np show ?thesis by simp
  qed
  with Cons.IH[OF nc] show ?case by simp
qed

lemma dropWhile_spaces_brace:
  "\<forall>c \<in> set ws. isSpace c \<Longrightarrow> dropWhile isSpace (ws @ CHR ''{'' # r) = CHR ''{'' # r"
  by (induction ws) (simp_all add: not_isSpace_brace)

lemma blockAt_Some:
  "blockAt label subject = Some inner \<Longrightarrow>
     (\<exists>ws post. subject = label @ ws @ ''{'' @ inner @ ''\<newline>}'' @ post \<and> (\<forall>c \<in> set ws. isSpace c))
     \<and> \<not> str_includes inner ''\<newline>}''"
proof -
  assume a: "blockAt label subject = Some inner"
  then have p: "prefix label subject" by (simp add: blockAt_def split: if_splits)
  then obtain t where t: "subject = label @ t" by (auto simp: prefix_def)
  let ?ws = "takeWhile isSpace t"
  from a t obtain r where r: "dropWhile isSpace t = CHR ''{'' # r" and u: "untilClose r = Some inner"
    by (auto simp: blockAt_def split: if_splits list.splits)
  from untilClose_Some[OF u] obtain post where post: "r = inner @ ''\<newline>}'' @ post"
    and ni: "\<not> str_includes inner ''\<newline>}''" by blast
  have "t = ?ws @ dropWhile isSpace t" by simp
  with r post have "subject = label @ ?ws @ ''{'' @ inner @ ''\<newline>}'' @ post"
    using t by simp
  moreover have "\<forall>c \<in> set ?ws. isSpace c" by (auto dest: set_takeWhileD)
  ultimately show ?thesis using ni by blast
qed

lemma findBlock_Some:
  "findBlock label content = Some inner \<Longrightarrow>
     (\<exists>pre ws post. content = pre @ label @ ws @ ''{'' @ inner @ ''\<newline>}'' @ post
         \<and> (\<forall>c \<in> set ws. isSpace c))
     \<and> \<not> str_includes inner ''\<newline>}''"
proof (induction content)
  case Nil
  from blockAt_Some[of label "[]" inner] Nil show ?case
    by (metis append_Nil findBlock.simps(1))
next
  case (Cons c cs)
  show ?case
  proof (cases "blockAt label (c # cs)")
    case (Some i)
    with Cons.prems have "blockAt label (c # cs) = Some inner" by simp
    from blockAt_Some[OF this] show ?thesis by (metis append_Nil)
  next
    case None
    with Cons.prems have "findBlock label cs = Some inner" by simp
    from Cons.IH[OF this] obtain pre ws post
      where "cs = pre @ label @ ws @ ''{'' @ inner @ ''\<newline>}'' @ post" "\<forall>c \<in> set ws. isSpace c"
        and ni: "\<not> str_includes inner ''\<newline>}''" by blast
    then have "c # cs = (c # pre) @ label @ ws @ ''{'' @ inner @ ''\<newline>}'' @ post" by simp
    with \<open>\<forall>c \<in> set ws. isSpace c\<close> ni show ?thesis by blast
  qed
qed

lemma blockAt_here:
  assumes "\<forall>c \<in> set ws. isSpace c"
  shows "blockAt label (label @ ws @ ''{'' @ r) = untilClose r"
  using dropWhile_spaces_brace[OF assms, of r] by (simp add: blockAt_def)

lemma findBlock_complete:
  assumes "\<forall>c \<in> set ws. isSpace c"
  shows "findBlock label (pre @ label @ ws @ ''{'' @ body @ ''\<newline>}'' @ post) \<noteq> None"
proof (induction pre)
  case Nil
  have "blockAt label (label @ ws @ ''{'' @ body @ ''\<newline>}'' @ post) \<noteq> None"
    using blockAt_here[OF assms, of label "body @ ''\<newline>}'' @ post"] untilClose_complete[of body post]
    by simp
  then show ?case
    by (cases "label @ ws @ ''{'' @ body @ ''\<newline>}'' @ post") (auto split: option.splits)
next
  case (Cons c pre)
  then show ?case by (auto split: option.splits)
qed

lemma findBlock_at_start:
  assumes "\<forall>c \<in> set ws. isSpace c" and "\<not> str_includes body ''\<newline>}''"
  shows "findBlock label (label @ ws @ ''{'' @ body @ ''\<newline>}'' @ post) = Some body"
proof -
  have "blockAt label (label @ ws @ ''{'' @ body @ ''\<newline>}'' @ post) = Some body"
    using blockAt_here[OF assms(1), of label "body @ ''\<newline>}'' @ post"]
      untilClose_exact[OF assms(2), of post] by simp
  then show ?thesis
    by (cases "label @ ws @ ''{'' @ body @ ''\<newline>}'' @ post") (auto split: option.splits)
qed

subsection \<open>Block extraction against brace counting\<close>

text \<open>
  The Block Extractor in the words of the specification, for comparison. After the first
  \<open>label\<close>, optional white space and \<open>{\<close>, it returns the text up to the brace that closes
  that first one, counting nested depth; absent if the label or the closing brace is not
  found.
\<close>

fun matchingBrace :: "nat \<Rightarrow> string \<Rightarrow> string option" where
  "matchingBrace depth [] = None"
| "matchingBrace depth (c # cs) =
     (if c = CHR ''{'' then map_option ((#) c) (matchingBrace (Suc depth) cs)
      else if c = CHR ''}'' then
        (case depth of 0 \<Rightarrow> Some [] | Suc d \<Rightarrow> map_option ((#) c) (matchingBrace d cs))
      else map_option ((#) c) (matchingBrace depth cs))"

fun afterLabel :: "string \<Rightarrow> string \<Rightarrow> string option" where
  "afterLabel label [] = None"
| "afterLabel label (c # cs) =
     (if prefix label (c # cs)
         \<and> (case dropWhile isSpace (drop (length label) (c # cs)) of
               [] \<Rightarrow> False | b # r \<Rightarrow> b = CHR ''{'')
      then Some (tl (dropWhile isSpace (drop (length label) (c # cs))))
      else afterLabel label cs)"

definition extractBlock_spec :: "string \<Rightarrow> string \<Rightarrow> string option" where
  "extractBlock_spec label content =
     (case afterLabel label content of None \<Rightarrow> None | Some r \<Rightarrow> matchingBrace 0 r)"

text \<open>Two request files: a body with a brace at the start of a line, and a one-line block.\<close>

definition bodyAtLineStart :: string where
  "bodyAtLineStart = ''body:json {\<newline>{\<newline>  a: 1\<newline>}\<newline>}\<newline>''"

definition oneLineMeta :: string where
  "oneLineMeta = ''meta { name: Get Users }\<newline>get {\<newline>  url: u\<newline>}\<newline>''"

lemmas block_eval = extractBlock_findBlock blockAt_def isSpace_def extractBlock_spec_def

text \<open>
  Claim C2 as stated fails: the extraction does not count braces. A body whose text has a
  closing brace at the start of a line is cut there, where brace counting returns it in
  full; a block closed on its opening line is not found at all (here the extraction runs
  on into the next block), where brace counting finds it.
\<close>

theorem block_extraction_counts_no_braces:
  "extractBlock ''body:json'' bodyAtLineStart = Some ''\<newline>{\<newline>  a: 1''
   \<and> extractBlock_spec ''body:json'' bodyAtLineStart = Some ''\<newline>{\<newline>  a: 1\<newline>}\<newline>''
   \<and> extractBlock ''meta'' oneLineMeta = Some '' name: Get Users }\<newline>get {\<newline>  url: u''
   \<and> extractBlock_spec ''meta'' oneLineMeta = Some '' name: Get Users ''"
  by (simp add: block_eval bodyAtLineStart_def oneLineMeta_def)

text \<open>
  Claim C2, as the code has it, for every file text and every label matched with the
  pattern \<open>label\s*\{([\s\S]*?)\n\}\<close> (meta, the seven method blocks, headers, \<open>body:<kind>\<close>):
  the extraction takes the leftmost place where the label, optional white space and an
  opening brace are followed, somewhere later, by a newline and a closing brace, and
  returns the text between that opening brace and the first such newline. So what it
  returns contains no newline directly followed by a closing brace; a text that has the
  label, white space, an opening brace and later a newline-brace always yields a block;
  a block at the start of the text whose body has no newline-brace inside is returned in
  full, nested braces included. In every other case the block is absent; nothing raises.
\<close>

theorem extractBlock_first_newline_brace:
  "extractBlock label content = findBlock label content
   \<and> (extractBlock label content = Some inner \<longrightarrow>
        (\<exists>pre ws post. content = pre @ label @ ws @ ''{'' @ inner @ ''\<newline>}'' @ post
            \<and> (\<forall>c \<in> set ws. isSpace c))
        \<and> \<not> str_includes inner ''\<newline>}'')
   \<and> ((\<forall>c \<in> set ws. isSpace c) \<longrightarrow>
        extractBlock label (pre @ label @ ws @ ''{'' @ body @ ''\<newline>}'' @ post) \<noteq> None)
   \<and> ((\<forall>c \<in> set ws. isSpace c) \<and> \<not> str_includes body ''\<newline>}'' \<longrightarrow>
        extractBlock label (label @ ws @ ''{'' @ body @ ''\<newline>}'' @ post) = Some body)"
  using findBlock_Some[of label content inner] findBlock_complete[of ws label pre body post]
    findBlock_at_start[of ws body label post]
  by (simp only: extractBlock_findBlock) blast

theorem extractBlock_first_newline_brace_witness:
  "isSpace CHR '' ''
   \<and> \<not> str_includes ''\<newline>  {\<newline>    a: {b: 1}\<newline>  }'' ''\<newline>}''
   \<and> extractBlock ''body:json''
        (''body:json'' @ '' '' @ ''{'' @ ''\<newline>  {\<newline>    a: {b: 1}\<newline>  }'' @ ''\<newline>}'' @ ''\<newline>tests {\<newline>}'')
        = Some ''\<newline>  {\<newline>    a: {b: 1}\<newline>  }''
   \<and> extractBlock ''tests''
        (''body:json'' @ '' '' @ ''{'' @ ''\<newline>  {\<newline>    a: {b: 1}\<newline>  }'' @ ''\<newline>}'' @ ''\<newline>tests {\<newline>}'')
        = Some []
   \<and> extractBlock ''headers''
        (''body:json'' @ '' '' @ ''{'' @ ''\<newline>  {\<newline>    a: {b: 1}\<newline>  }'' @ ''\<newline>}'' @ ''\<newline>tests {\<newline>}'')
        = None"
proof -
  have sp: "isSpace CHR '' ''" "\<forall>c \<in> set '' ''. isSpace c" by (simp_all add: isSpace_def)
  have ni: "\<not> str_includes ''\<newline>  {\<newline>    a: {b: 1}\<newline>  }'' ''\<newline>}''" by simp
  note t = extractBlock_first_newline_brace[of "''body:json''" _ _ "'' ''" _
      "''\<newline>  {\<newline>    a: {b: 1}\<newline>  }''" "''\<newline>tests {\<newline>}''"]
  from t sp ni have a: "extractBlock ''body:json''
        (''body:json'' @ '' '' @ ''{'' @ ''\<newline>  {\<newline>    a: {b: 1}\<newline>  }'' @ ''\<newline>}'' @ ''\<newline>tests {\<newline>}'')
        = Some ''\<newline>  {\<newline>    a: {b: 1}\<newline>  }''" by blast
  have b: "extractBlock ''tests''
        (''body:json'' @ '' '' @ ''{'' @ ''\<newline>  {\<newline>    a: {b: 1}\<newline>  }'' @ ''\<newline>}'' @ ''\<newline>tests {\<newline>}'')
        = Some []"
    and c: "extractBlock ''headers''
        (''body:json'' @ '' '' @ ''{'' @ ''\<newline>  {\<newline>    a: {b: 1}\<newline>  }'' @ ''\<newline>}'' @ ''\<newline>tests {\<newline>}'')
        = None"
    by (simp_all add: block_eval)
  from sp(1) ni a b c show ?thesis by blast
qed

section \<open>getRequestDetails: the headers block\<close>

text \<open>\<open>String.trim\<close> strips the characters of \<open>\s\<close> at both ends.\<close>

definition trim :: "string \<Rightarrow> string" where
  "trim s = rev (dropWhile isSpace (rev (dropWhile isSpace s)))"

text \<open>\<open>s.split(c)\<close> for a one-character separator: the empty string gives one empty piece.\<close>

fun splitOn :: "char \<Rightarrow> string \<Rightarrow> string list" where
  "splitOn sep [] = [[]]"
| "splitOn sep (x # xs) =
     (if x = sep then [] # splitOn sep xs
      else (case splitOn sep xs of [] \<Rightarrow> [[x]] | piece # pieces \<Rightarrow> (x # piece) # pieces))"

text \<open>\<open>s.indexOf(c)\<close>, \<open>-1\<close> when \<open>c\<close> does not occur.\<close>

definition indexOf :: "char \<Rightarrow> string \<Rightarrow> int" where
  "indexOf c s = (if c \<in> set s then int (length (takeWhile (\<lambda>x. x \<noteq> c) s)) else - 1)"

text \<open>
  \<open>obj[key] = value\<close> on a plain object holding strings, as the list of its own
  properties in insertion order (JavaScript lists integer-like keys first; nothing below
  depends on the order). Assigning a string to \<open>__proto__\<close> creates no property.
\<close>

definition setProperty :: "(string \<times> string) list \<Rightarrow> string \<Rightarrow> string \<Rightarrow> (string \<times> string) list" where
  "setProperty obj key v = (if key = ''__proto__'' then obj else AList.update key v obj)"

text \<open>The body of the loop over \<open>headerLines\<close>.\<close>

definition addHeaderLine :: "(string \<times> string) list \<Rightarrow> string \<Rightarrow> (string \<times> string) list" where
  "addHeaderLine headers line =
     (let colonIndex = indexOf CHR '':'' line
      in if colonIndex > 0
         then setProperty headers (trim (take (nat colonIndex) line))
                (trim (drop (nat (colonIndex + 1)) line))
         else headers)"

definition parseHeaders :: "string \<Rightarrow> (string \<times> string) list" where
  "parseHeaders content =
     (case extractBlock ''headers'' content of
        None \<Rightarrow> []
      | Some headersContent \<Rightarrow>
          foldl addHeaderLine []
            (filter (\<lambda>line. trim line \<noteq> []) (splitOn CHR ''\<newline>'' headersContent)))"

lemma addHeaderLine_colon:
  "addHeaderLine headers line =
     (if CHR '':'' \<in> set line \<and> hd line \<noteq> CHR '':''
      then setProperty headers (trim (takeWhile (\<lambda>c. c \<noteq> CHR '':'') line))
             (trim (tl (dropWhile (\<lambda>c. c \<noteq> CHR '':'') line)))
      else headers)"
proof (cases "CHR '':'' \<in> set line")
  case False
  then show ?thesis by (simp add: addHeaderLine_def indexOf_def)
next
  case True
  then obtain x xs where l: "line = x # xs" by (cases line) auto
  let ?P = "\<lambda>c. c \<noteq> CHR '':''"
  have pos: "indexOf CHR '':'' line > 0 \<longleftrightarrow> hd line \<noteq> CHR '':''"
    using True l by (simp add: indexOf_def)
  have n: "nat (indexOf CHR '':'' line) = length (takeWhile ?P line)"
    using True by (simp add: indexOf_def)
  have n1: "nat (indexOf CHR '':'' line + 1) = Suc (length (takeWhile ?P line))"
    using True by (simp add: indexOf_def)
  have tk: "take (nat (indexOf CHR '':'' line)) line = takeWhile ?P line"
    unfolding n by (rule takeWhile_eq_take[symmetric])
  have "drop (Suc (length (takeWhile ?P line))) line = tl (drop (length (takeWhile ?P line)) line)"
    by (simp add: drop_Suc tl_drop)
  also have "drop (length (takeWhile ?P line)) line = dropWhile ?P line"
    by (rule dropWhile_eq_drop[symmetric])
  finally have dr: "drop (nat (indexOf CHR '':'' line + 1)) line = tl (dropWhile ?P line)"
    unfolding n1 .
  show ?thesis using True pos tk dr by (simp add: addHeaderLine_def Let_def)
qed

lemma dropWhile_keeps:
  "u \<noteq> [] \<Longrightarrow> \<not> P (hd u) \<Longrightarrow> dropWhile P u = u"
  by (cases u) simp_all

lemma trim_padded:
  assumes "\<forall>c \<in> set w1. isSpace c" "\<forall>c \<in> set w2. isSpace c"
    and "u \<noteq> []" "\<not> isSpace (hd u)" "\<not> isSpace (last u)"
  shows "trim (w1 @ u @ w2) = u"
proof -
  have "dropWhile isSpace (w1 @ (u @ w2)) = dropWhile isSpace (u @ w2)"
    using assms(1) by (intro dropWhile_append2) simp
  also have "\<dots> = u @ w2"
    using assms(3,4) by (intro dropWhile_keeps) simp_all
  finally have a: "dropWhile isSpace (w1 @ u @ w2) = u @ w2" .
  have "dropWhile isSpace (rev w2 @ rev u) = dropWhile isSpace (rev u)"
    using assms(2) by (intro dropWhile_append2) simp
  also have "\<dots> = rev u"
    using assms(3,5) by (intro dropWhile_keeps) (simp_all add: hd_rev)
  finally show ?thesis by (simp add: trim_def a)
qed

lemma trim_decomp:
  assumes "trim l = u"
  shows "\<exists>w1 w2. l = w1 @ u @ w2 \<and> (\<forall>c \<in> set w1. isSpace c) \<and> (\<forall>c \<in> set w2. isSpace c)"
proof -
  let ?m = "dropWhile isSpace l"
  have "rev ?m = takeWhile isSpace (rev ?m) @ dropWhile isSpace (rev ?m)" by simp
  then have "?m = rev (dropWhile isSpace (rev ?m)) @ rev (takeWhile isSpace (rev ?m))"
    by (metis rev_append rev_rev_ident)
  then have "?m = u @ rev (takeWhile isSpace (rev ?m))" using assms by (simp add: trim_def)
  moreover have "l = takeWhile isSpace l @ ?m" by simp
  ultimately have "l = takeWhile isSpace l @ u @ rev (takeWhile isSpace (rev ?m))" by metis
  moreover have "\<forall>c \<in> set (takeWhile isSpace l). isSpace c" by (auto dest: set_takeWhileD)
  moreover have "\<forall>c \<in> set (rev (takeWhile isSpace (rev ?m))). isSpace c"
    by (auto dest: set_takeWhileD)
  ultimately show ?thesis by blast
qed

lemma trim_lead: "\<forall>c \<in> set w. isSpace c \<Longrightarrow> trim (w @ x) = trim x"
proof -
  assume "\<forall>c \<in> set w. isSpace c"
  then have "dropWhile isSpace (w @ x) = dropWhile isSpace x"
    by (intro dropWhile_append2) simp
  then show ?thesis by (simp add: trim_def)
qed

lemma trim_trail:
  assumes "\<forall>c \<in> set w. isSpace c"
  shows "trim (x @ w) = trim x"
proof (cases "\<forall>c \<in> set x. isSpace c")
  case True
  with assms have "dropWhile isSpace (x @ w) = []" "dropWhile isSpace x = []" by auto
  then show ?thesis by (simp only: trim_def)
next
  case False
  then have "dropWhile isSpace (x @ w) = dropWhile isSpace x @ w"
    by (auto simp: dropWhile_append1)
  moreover have "dropWhile isSpace (rev w @ rev (dropWhile isSpace x))
                   = dropWhile isSpace (rev (dropWhile isSpace x))"
    using assms by (intro dropWhile_append2) simp
  ultimately show ?thesis by (simp add: trim_def)
qed

lemma not_isSpace_colon: "\<not> isSpace CHR '':''"
  by (simp add: isSpace_def)

lemma addHeaderLine_trimmed:
  assumes t: "trim line = k @ CHR '':'' # v" and k: "k \<noteq> []" "CHR '':'' \<notin> set k"
  shows "addHeaderLine headers line = setProperty headers (trim k) (trim v)"
proof -
  from trim_decomp[OF t] obtain w1 w2
    where l: "line = w1 @ (k @ CHR '':'' # v) @ w2"
      and w1: "\<forall>c \<in> set w1. isSpace c" and w2: "\<forall>c \<in> set w2. isSpace c" by blast
  let ?P = "\<lambda>c. c \<noteq> CHR '':''"
  have nc: "CHR '':'' \<notin> set (w1 @ k)" using w1 k(2) not_isSpace_colon by auto
  have l': "line = (w1 @ k) @ CHR '':'' # (v @ w2)" using l by simp
  have tw: "takeWhile ?P line = w1 @ k"
    unfolding l' using nc by (intro takeWhile_append2[THEN trans]) auto
  have dw: "dropWhile ?P line = CHR '':'' # (v @ w2)"
    unfolding l' using nc by (intro dropWhile_append2[THEN trans]) auto
  have "hd line \<noteq> CHR '':''"
    using nc k(1) unfolding l' by (cases "w1 @ k") auto
  moreover have "CHR '':'' \<in> set line" unfolding l' by simp
  ultimately have "addHeaderLine headers line
                     = setProperty headers (trim (w1 @ k)) (trim (v @ w2))"
    by (simp add: addHeaderLine_colon tw dw)
  then show ?thesis by (simp add: trim_lead[OF w1] trim_trail[OF w2])
qed

text \<open>Two request files: the block of the claim written on one line, and written out.\<close>

definition headersOneLine :: string where
  "headersOneLine = ''headers { A: 1\<newline>B: 2 }''"

definition headersWrittenOut :: string where
  "headersWrittenOut =
     ''meta {\<newline>  name: Get Users\<newline>}\<newline>\<newline>headers  {\<newline>  A: 1  \<newline>\<newline>    B: 2\<newline>}\<newline>''"

lemmas headers_eval = parseHeaders_def block_eval trim_def addHeaderLine_def indexOf_def
  setProperty_def

text \<open>
  Claim C6 as stated fails on the very text it quotes: the closing brace of
  \<open>headers { A: 1\nB: 2 }\<close> does not follow a newline, so the block is not found and the
  headers map is empty.
\<close>

theorem headers_block_needs_newline_brace:
  "extractBlock ''headers'' headersOneLine = None \<and> parseHeaders headersOneLine = []"
  by (simp add: headers_eval headersOneLine_def)

text \<open>
  Claim C6, as the code has it. The headers are read from the block the extraction finds
  (closing brace at the start of a line): each line that is not blank and has a colon
  that is not its first character sets the trimmed text before its first colon to the
  trimmed text after it; every other line is skipped. Hence, for every file text whose
  headers block has, after trimming, exactly the non-blank lines \<open>A: 1\<close> and \<open>B: 2\<close>,
  whatever white space and blank lines surround them, the headers map has exactly the
  entries A with "1" and B with "2".
\<close>

theorem headers_block_two_entries:
  "parseHeaders content =
     (case extractBlock ''headers'' content of
        None \<Rightarrow> []
      | Some inner \<Rightarrow>
          foldl (\<lambda>headers line.
                   if CHR '':'' \<in> set line \<and> hd line \<noteq> CHR '':''
                   then setProperty headers (trim (takeWhile (\<lambda>c. c \<noteq> CHR '':'') line))
                          (trim (tl (dropWhile (\<lambda>c. c \<noteq> CHR '':'') line)))
                   else headers)
                [] (filter (\<lambda>line. trim line \<noteq> []) (splitOn CHR ''\<newline>'' inner)))
   \<and> (extractBlock ''headers'' content = Some inner
        \<and> map trim (filter (\<lambda>line. trim line \<noteq> []) (splitOn CHR ''\<newline>'' inner))
             = [''A: 1'', ''B: 2'']
      \<longrightarrow> parseHeaders content = [(''A'', ''1''), (''B'', ''2'')])"
proof (intro conjI impI)
  have "addHeaderLine = (\<lambda>headers line.
                   if CHR '':'' \<in> set line \<and> hd line \<noteq> CHR '':''
                   then setProperty headers (trim (takeWhile (\<lambda>c. c \<noteq> CHR '':'') line))
                          (trim (tl (dropWhile (\<lambda>c. c \<noteq> CHR '':'') line)))
                   else headers)"
    by (intro ext) (rule addHeaderLine_colon)
  then show "parseHeaders content =
     (case extractBlock ''headers'' content of
        None \<Rightarrow> []
      | Some inner \<Rightarrow>
          foldl (\<lambda>headers line.
                   if CHR '':'' \<in> set line \<and> hd line \<noteq> CHR '':''
                   then setProperty headers (trim (takeWhile (\<lambda>c. c \<noteq> CHR '':'') line))
                          (trim (tl (dropWhile (\<lambda>c. c \<noteq> CHR '':'') line)))
                   else headers)
                [] (filter (\<lambda>line. trim line \<noteq> []) (splitOn CHR ''\<newline>'' inner)))"
    by (simp only: parseHeaders_def)
next
  assume a: "extractBlock ''headers'' content = Some inner
        \<and> map trim (filter (\<lambda>line. trim line \<noteq> []) (splitOn CHR ''\<newline>'' inner))
             = [''A: 1'', ''B: 2'']"
  then obtain l1 l2 where ls: "filter (\<lambda>line. trim line \<noteq> []) (splitOn CHR ''\<newline>'' inner) = [l1, l2]"
    and t1: "trim l1 = ''A: 1''" and t2: "trim l2 = ''B: 2''"
    by (auto simp: map_eq_Cons_conv)
  have h1: "addHeaderLine [] l1 = setProperty [] (trim ''A'') (trim '' 1'')"
    using addHeaderLine_trimmed[of l1 "''A''" "'' 1''" "[]"] t1 by simp
  have h2: "addHeaderLine hs l2 = setProperty hs (trim ''B'') (trim '' 2'')" for hs
    using addHeaderLine_trimmed[of l2 "''B''" "'' 2''" hs] t2 by simp
  have tr: "trim ''A'' = ''A''" "trim '' 1'' = ''1''" "trim ''B'' = ''B''" "trim '' 2'' = ''2''"
    by (simp_all add: trim_def isSpace_def)
  from a show "parseHeaders content = [(''A'', ''1''), (''B'', ''2'')]"
    by (simp add: parseHeaders_def ls h1 h2 tr setProperty_def)
qed

theorem headers_block_two_entries_witness:
  "extractBlock ''headers'' headersWrittenOut = Some ''\<newline>  A: 1  \<newline>\<newline>    B: 2''
   \<and> map trim (filter (\<lambda>line. trim line \<noteq> [])
                 (splitOn CHR ''\<newline>'' ''\<newline>  A: 1  \<newline>\<newline>    B: 2''))
        = [''A: 1'', ''B: 2'']
   \<and> parseHeaders headersWrittenOut = [(''A'', ''1''), (''B'', ''2'')]"
proof -
  have b: "extractBlock ''headers'' headersWrittenOut = Some ''\<newline>  A: 1  \<newline>\<newline>    B: 2''"
    by (simp add: block_eval headersWrittenOut_def)
  have l: "map trim (filter (\<lambda>line. trim line \<noteq> [])
                 (splitOn CHR ''\<newline>'' ''\<newline>  A: 1  \<newline>\<newline>    B: 2''))
        = [''A: 1'', ''B: 2'']"
    by (simp add: trim_def isSpace_def)
  from headers_block_two_entries[of headersWrittenOut "''\<newline>  A: 1  \<newline>\<newline>    B: 2''"] b l
  show ?thesis by blast
qed

section \<open>parseEnvironmentVariables\<close>

text \<open>\<open>vars\s*\{([^}]*)\}\<close>\<close>

definition varsRegex :: regex where
  "varsRegex =
     Seq (lits ''vars'') (Seq (Star (Cls isSpace)) (Seq (Lit CHR ''{'')
       (Seq (Grp 1 (Star (Cls (\<lambda>c. c \<noteq> CHR ''}'')))) (Lit CHR ''}''))))"

text \<open>\<open>[a-zA-Z_]\<close> and \<open>[a-zA-Z0-9_]\<close>, by character code.\<close>

definition isIdentStart :: "char \<Rightarrow> bool" where
  "isIdentStart c =
     (let n = (of_char c :: nat)
      in (97 \<le> n \<and> n \<le> 122) \<or> (65 \<le> n \<and> n \<le> 90) \<or> n = 95)"

definition isIdentChar :: "char \<Rightarrow> bool" where
  "isIdentChar c = (isIdentStart c \<or> (48 \<le> (of_char c :: nat) \<and> (of_char c :: nat) \<le> 57))"

text \<open>The dot without the flag \<open>s\<close>.\<close>

definition notLineTerminator :: "char \<Rightarrow> bool" where
  "notLineTerminator c = (\<not> isLineTerminator c)"

text \<open>\<open>^\s*([a-zA-Z_][a-zA-Z0-9_]*)\s*:\s*(.+?)\s*$\<close> with the flags \<open>g\<close> and \<open>m\<close>.\<close>

definition varRegex :: regex where
  "varRegex =
     Seq Bol (Seq (Star (Cls isSpace))
       (Seq (Grp 1 (Seq (Cls isIdentStart) (Star (Cls isIdentChar))))
         (Seq (Star (Cls isSpace)) (Seq (Lit CHR '':'') (Seq (Star (Cls isSpace))
           (Seq (Grp 2 (Seq (Cls notLineTerminator) (Lazy (Cls notLineTerminator))))
             (Seq (Star (Cls isSpace)) Eol)))))))"

text \<open>
  The loop \<open>while ((match = regex.exec(subject)) !== null)\<close> of a regular expression with the
  flag \<open>g\<close>: each \<open>exec\<close> searches from where the match before ended. A match that
  consumes nothing would be found again for ever; \<open>None\<close> stands for that.
\<close>

function execAll :: "regex \<Rightarrow> char option \<Rightarrow> string \<Rightarrow> mstate list option" where
  "execAll r p subject =
     (case search r p subject of
        None \<Rightarrow> Some []
      | Some m \<Rightarrow>
          if length (rest m) < length subject
          then map_option ((#) m) (execAll r (prev m) (rest m))
          else None)"
  by pat_completeness auto
termination
  by (relation "measure (\<lambda>(r, p, subject). length subject)") auto

declare execAll.simps [simp del]

definition groupText :: "mstate \<Rightarrow> nat \<Rightarrow> string" where
  "groupText m n = (case captureOf m n of Some g \<Rightarrow> g | None \<Rightarrow> [])"

definition parseEnvironmentVariables :: "string \<Rightarrow> (string \<times> string) list option" where
  "parseEnvironmentVariables content =
     (case search varsRegex None content of
        None \<Rightarrow> Some []
      | Some varsMatch \<Rightarrow>
          map_option
            (foldl (\<lambda>variables m. setProperty variables (groupText m 1) (groupText m 2)) [])
            (execAll varRegex None (groupText varsMatch 1)))"

definition envEmptyValue :: string where
  "envEmptyValue = ''vars {\<newline>  token:\<newline>  baseUrl: https://x.test\<newline>}\<newline>''"

definition envPlain :: string where
  "envPlain = ''vars {\<newline>  baseUrl: https://x.test\<newline>  apiKey: k123\<newline>}\<newline>''"

lemmas env_eval = parseEnvironmentVariables_def varsRegex_def varRegex_def rmatch.simps
  execAll.simps step_def isSpace_def isLineTerminator_def notLineTerminator_def
  isIdentStart_def isIdentChar_def groupText_def captureOf_def setProperty_def

definition envBraces :: string where
  "envBraces = ''vars {\<newline>  apiKey: {{process.env.API_KEY}}\<newline>  baseUrl: https://x.test\<newline>}\<newline>''"

text \<open>
  Claim C8 at concrete inputs. A plain file parses line by line. After a line with an
  empty value, \<open>\s*\<close> runs over the line break and the next line becomes the value of the
  empty variable, so the next line's own entry is lost. The vars block ends at the first
  closing brace, so a value written with \<open>{{...}}\<close> is cut and every later line is lost.
\<close>

theorem env_lines_merged_or_cut:
  "parseEnvironmentVariables envPlain
     = Some [(''baseUrl'', ''https://x.test''), (''apiKey'', ''k123'')]
   \<and> parseEnvironmentVariables envEmptyValue
     = Some [(''token'', ''baseUrl: https://x.test'')]
   \<and> parseEnvironmentVariables envBraces
     = Some [(''apiKey'', ''{{process.env.API_KEY'')]"
  by (simp add: env_eval envEmptyValue_def envPlain_def envBraces_def)

subsection \<open>The loop over the variable lines always ends\<close>

lemma rmatch_Seq_elim:
  "t \<in> set (rmatch (Seq a b) s) \<Longrightarrow> \<exists>u \<in> set (rmatch a s). t \<in> set (rmatch b u)"
  by (auto simp: rmatch.simps(4))

lemma rmatch_shorter_or_equal: "t \<in> set (rmatch r s) \<Longrightarrow> length (rest t) \<le> length (rest s)"
  by (drule rmatch_rest_suffix) (rule suffix_length_le)

lemma rmatch_Lit_shorter: "t \<in> set (rmatch (Lit c) s) \<Longrightarrow> length (rest t) < length (rest s)"
  by (cases "rest s") (auto simp: rmatch.simps(2) step_def split: if_splits)

lemma varRegex_consumes:
  assumes "t \<in> set (rmatch varRegex s)"
  shows "length (rest t) < length (rest s)"
proof -
  from assms[unfolded varRegex_def] obtain u1
    where u1: "u1 \<in> set (rmatch Bol s)"
      and r1: "t \<in> set (rmatch (Seq (Star (Cls isSpace))
       (Seq (Grp 1 (Seq (Cls isIdentStart) (Star (Cls isIdentChar))))
         (Seq (Star (Cls isSpace)) (Seq (Lit CHR '':'') (Seq (Star (Cls isSpace))
           (Seq (Grp 2 (Seq (Cls notLineTerminator) (Lazy (Cls notLineTerminator))))
             (Seq (Star (Cls isSpace)) Eol))))))) u1)"
    by (blast dest: rmatch_Seq_elim)
  from r1 obtain u2
    where u2: "u2 \<in> set (rmatch (Star (Cls isSpace)) u1)"
      and r2: "t \<in> set (rmatch
       (Seq (Grp 1 (Seq (Cls isIdentStart) (Star (Cls isIdentChar))))
         (Seq (Star (Cls isSpace)) (Seq (Lit CHR '':'') (Seq (Star (Cls isSpace))
           (Seq (Grp 2 (Seq (Cls notLineTerminator) (Lazy (Cls notLineTerminator))))
             (Seq (Star (Cls isSpace)) Eol)))))) u2)"
    by (blast dest: rmatch_Seq_elim)
  from r2 obtain u3
    where u3: "u3 \<in> set (rmatch (Grp 1 (Seq (Cls isIdentStart) (Star (Cls isIdentChar)))) u2)"
      and r3: "t \<in> set (rmatch
         (Seq (Star (Cls isSpace)) (Seq (Lit CHR '':'') (Seq (Star (Cls isSpace))
           (Seq (Grp 2 (Seq (Cls notLineTerminator) (Lazy (Cls notLineTerminator))))
             (Seq (Star (Cls isSpace)) Eol))))) u3)"
    by (blast dest: rmatch_Seq_elim)
  from r3 obtain u4
    where u4: "u4 \<in> set (rmatch (Star (Cls isSpace)) u3)"
      and r4: "t \<in> set (rmatch
         (Seq (Lit CHR '':'') (Seq (Star (Cls isSpace))
           (Seq (Grp 2 (Seq (Cls notLineTerminator) (Lazy (Cls notLineTerminator))))
             (Seq (Star (Cls isSpace)) Eol)))) u4)"
    by (blast dest: rmatch_Seq_elim)
  from r4 obtain u5
    where u5: "u5 \<in> set (rmatch (Lit CHR '':'') u4)"
      and r5: "t \<in> set (rmatch
         (Seq (Star (Cls isSpace))
           (Seq (Grp 2 (Seq (Cls notLineTerminator) (Lazy (Cls notLineTerminator))))
             (Seq (Star (Cls isSpace)) Eol))) u5)"
    by (blast dest: rmatch_Seq_elim)
  from u1 u2 u3 u4 u5 r5
  have "length (rest u1) \<le> length (rest s)" "length (rest u2) \<le> length (rest u1)"
    "length (rest u3) \<le> length (rest u2)" "length (rest u4) \<le> length (rest u3)"
    "length (rest u5) < length (rest u4)" "length (rest t) \<le> length (rest u5)"
    by (auto dest: rmatch_shorter_or_equal rmatch_Lit_shorter)
  then show ?thesis by linarith
qed

lemma search_found:
  "search r p subject = Some m \<Longrightarrow>
     \<exists>p' s'. length s' \<le> length subject \<and> m \<in> set (rmatch r \<lparr>prev = p', rest = s', groups = []\<rparr>)"
proof (induction subject arbitrary: p)
  case Nil
  then have "m \<in> set (rmatch r \<lparr>prev = p, rest = [], groups = []\<rparr>)"
    by (auto split: list.splits)
  then show ?case by (intro exI[of _ p] exI[of _ "[]"]) simp
next
  case (Cons c cs)
  show ?case
  proof (cases "rmatch r \<lparr>prev = p, rest = c # cs, groups = []\<rparr>")
    case Nil
    with Cons.prems have "search r (Some c) cs = Some m" by simp
    from Cons.IH[OF this] obtain p' s'
      where "length s' \<le> length cs" "m \<in> set (rmatch r \<lparr>prev = p', rest = s', groups = []\<rparr>)"
      by blast
    then show ?thesis by (intro exI[of _ p'] exI[of _ s']) simp
  next
    case (Cons m' ms)
    with Cons.prems have "m \<in> set (rmatch r \<lparr>prev = p, rest = c # cs, groups = []\<rparr>)" by simp
    then show ?thesis by (intro exI[of _ p] exI[of _ "c # cs"]) simp
  qed
qed

lemma execAll_returns:
  assumes consumes: "\<And>s t. t \<in> set (rmatch r s) \<Longrightarrow> length (rest t) < length (rest s)"
  shows "execAll r p subject \<noteq> None"
  using consumes
proof (induction r p subject rule: execAll.induct)
  case (1 r p subject)
  show ?case
  proof (cases "search r p subject")
    case None
    then show ?thesis by (simp add: execAll.simps[of r p subject])
  next
    case (Some m)
    from search_found[OF Some] obtain p' s'
      where le: "length s' \<le> length subject"
        and m: "m \<in> set (rmatch r \<lparr>prev = p', rest = s', groups = []\<rparr>)" by blast
    from "1.prems"[OF m] le have lt: "length (rest m) < length subject" by simp
    from "1.IH"[OF Some lt] "1.prems" have "execAll r (prev m) (rest m) \<noteq> None" by blast
    with Some lt show ?thesis by (simp add: execAll.simps[of r p subject])
  qed
qed

lemma parseEnvironmentVariables_returns:
  "\<exists>variables. parseEnvironmentVariables content = Some variables"
proof (cases "search varsRegex None content")
  case None
  then show ?thesis by (simp add: parseEnvironmentVariables_def)
next
  case (Some varsMatch)
  from execAll_returns[of varRegex None "groupText varsMatch 1"] varRegex_consumes
  obtain ms where "execAll varRegex None (groupText varsMatch 1) = Some ms" by blast
  with Some show ?thesis by (simp add: parseEnvironmentVariables_def)
qed

section \<open>getRequestDetails: the tests block\<close>

text \<open>\<open>tests\s*\{([^}]*(?:\{[^}]*\}[^}]*)*)\}\<close>\<close>

definition notClosingBrace :: "char \<Rightarrow> bool" where
  "notClosingBrace c = (c \<noteq> CHR ''}'')"

definition testsRegex :: regex where
  "testsRegex =
     Seq (lits ''tests'') (Seq (Star (Cls isSpace)) (Seq (Lit CHR ''{'')
       (Seq (Grp 1 (Seq (Star (Cls notClosingBrace))
                        (Star (Seq (Lit CHR ''{'') (Seq (Star (Cls notClosingBrace))
                                 (Seq (Lit CHR ''}'') (Star (Cls notClosingBrace))))))))
            (Lit CHR ''}''))))"

definition extractTestsBlock :: "string \<Rightarrow> string option" where
  "extractTestsBlock content =
     (case search testsRegex None content of None \<Rightarrow> None | Some m \<Rightarrow> captureOf m 1)"

text \<open>
  The greedy \<open>[^}]*\<close> runs up to the first closing brace and the final \<open>\}\<close> matches it, so
  the alternative for a nested pair of braces is never tried: the block ends at the first
  closing brace, also one that closes a callback.
\<close>

lemma tests_block_ends_at_first_brace:
  "extractTestsBlock ''tests {\<newline>  test(a, function() {\<newline>    ok\<newline>  });\<newline>  test(b, f);\<newline>}\<newline>''
     = Some ''\<newline>  test(a, function() {\<newline>    ok\<newline>  ''"
  by (simp add: extractTestsBlock_def testsRegex_def rmatch.simps step_def isSpace_def
      notClosingBrace_def captureOf_def)

section \<open>Listing and locating requests\<close>

datatype error =
    FsError errno path
  | NotADirectory path
  | NotValidCollection path
  | CollectionNotFound path
  | RequestNotFound string

text \<open>\<open>hasCollectionFile\<close>: \<open>bruno.json\<close> is tried first, then \<open>collection.bru\<close>.\<close>

definition hasCollectionFile :: "filesystem \<Rightarrow> path \<Rightarrow> bool" where
  "hasCollectionFile fs dirPath =
     (if access fs (dirPath @ [''bruno.json'']) then True
      else if access fs (dirPath @ [''collection.bru'']) then True
      else False)"

subsection \<open>parseBrunoFile\<close>

text \<open>The properties that \<open>parseBrunoFile\<close> may set on \<open>info\<close>.\<close>

record BrunoInfo =
  infoName :: "string option"
  infoMethod :: "string option"
  infoUrl :: "string option"

definition noInfo :: BrunoInfo where
  "noInfo = \<lparr>infoName = None, infoMethod = None, infoUrl = None\<rparr>"

text \<open>\<open>(.+)\<close>: one or more characters of the line, as many as possible.\<close>

definition restOfLine :: regex where
  "restOfLine = Seq (Cls notLineTerminator) (Star (Cls notLineTerminator))"

text \<open>\<open>^\s*name:\s*(.+)\<close> and \<open>^\s*url:\s*(.+)\<close>.\<close>

definition nameRegex :: regex where
  "nameRegex =
     Seq Start (Seq (Star (Cls isSpace)) (Seq (lits ''name:'')
       (Seq (Star (Cls isSpace)) (Grp 1 restOfLine))))"

definition urlRegex :: regex where
  "urlRegex =
     Seq Start (Seq (Star (Cls isSpace)) (Seq (lits ''url:'')
       (Seq (Star (Cls isSpace)) (Grp 1 restOfLine))))"

text \<open>
  \<open>^(get|post|put|delete|patch|head|options)\s*\{\<close> with the flag \<open>i\<close>, under which a
  letter of the pattern matches itself in either case.
\<close>

definition letter :: "char \<Rightarrow> regex" where
  "letter c = Cls (\<lambda>x. toLowerChar x = toLowerChar c)"

fun word :: "string \<Rightarrow> regex" where
  "word [] = Eps"
| "word (c # cs) = Seq (letter c) (word cs)"

definition methodRegex :: regex where
  "methodRegex =
     Seq Start
       (Seq (Grp 1 (Alt (word ''get'') (Alt (word ''post'') (Alt (word ''put'')
              (Alt (word ''delete'') (Alt (word ''patch'') (Alt (word ''head'')
                (word ''options''))))))))
         (Seq (Star (Cls isSpace)) (Lit CHR ''{'')))"

text \<open>
  \<open>toUpperCase\<close> on code units below 256: the small letters a to z and 224 to 254 (the
  division sign 247 left aside) become capitals. It is applied to the matched method
  word, which holds letters a to z only.
\<close>

definition toUpperChar :: "char \<Rightarrow> char" where
  "toUpperChar c =
     (let n = (of_char c :: nat)
      in if (97 \<le> n \<and> n \<le> 122) \<or> (224 \<le> n \<and> n \<le> 254 \<and> n \<noteq> 247)
         then char_of (n - 32) else c)"

definition toUpperCase :: "string \<Rightarrow> string" where
  "toUpperCase s = map toUpperChar s"

text \<open>\<open>lines.indexOf(line)\<close> for a line that is in the array: the index of its first copy.\<close>

definition indexOfLine :: "string \<Rightarrow> string list \<Rightarrow> nat" where
  "indexOfLine line ls = length (takeWhile (\<lambda>l. l \<noteq> line) ls)"

text \<open>The inner loop: the first of the given lines that matches the URL pattern.\<close>

fun findUrl :: "string list \<Rightarrow> string option" where
  "findUrl [] = None"
| "findUrl (l # ls) =
     (case search urlRegex None l of
        Some urlMatch \<Rightarrow> Some (trim (groupText urlMatch 1))
      | None \<Rightarrow> findUrl ls)"

text \<open>The state of the loop over the lines: the flag \<open>inMeta\<close> and the object \<open>info\<close>.\<close>

record scan =
  inMeta :: bool
  info :: BrunoInfo

text \<open>
  One round of the loop. The inner loop looks at the lines with index \<open>urlIndex + 1\<close> up
  to, but not including, \<open>Math.min(urlIndex + 5, lines.length)\<close>.
\<close>

definition scanLine :: "string list \<Rightarrow> scan \<Rightarrow> string \<Rightarrow> scan" where
  "scanLine ls st line =
     (if trim line = ''meta {'' then st\<lparr>inMeta := True\<rparr>
      else if inMeta st \<and> trim line = ''}'' then st\<lparr>inMeta := False\<rparr>
      else
        (let named =
               (if inMeta st
                then (case search nameRegex None line of
                        Some nameMatch \<Rightarrow> (info st)\<lparr>infoName := Some (trim (groupText nameMatch 1))\<rparr>
                      | None \<Rightarrow> info st)
                else info st)
         in case search methodRegex None line of
              None \<Rightarrow> st\<lparr>info := named\<rparr>
            | Some methodMatch \<Rightarrow>
                (let withMethod = named\<lparr>infoMethod := Some (toUpperCase (groupText methodMatch 1))\<rparr>;
                     urlIndex = indexOfLine line ls
                 in case findUrl (take 4 (drop (urlIndex + 1) ls)) of
                      Some url \<Rightarrow> st\<lparr>info := withMethod\<lparr>infoUrl := Some url\<rparr>\<rparr>
                    | None \<Rightarrow> st\<lparr>info := withMethod\<rparr>)))"

text \<open>
  \<open>parseBrunoFile\<close> catches every error, of \<open>fs.readFile\<close> above all, and returns the
  empty object then, so it cannot make a listing fail.
\<close>

definition parseBrunoFile :: "filesystem \<Rightarrow> path \<Rightarrow> BrunoInfo" where
  "parseBrunoFile fs filePath =
     (case readFile fs filePath of
        Inl code \<Rightarrow> noInfo
      | Inr content \<Rightarrow>
          (let ls = splitOn CHR ''\<newline>'' content
           in info (foldl (scanLine ls) \<lparr>inMeta = False, info = noInfo\<rparr> ls)))"

subsection \<open>findBrunoRequests and listRequests\<close>

text \<open>
  \<open>path.basename(entry.name, '.bru')\<close> for an entry name, which holds no separator: the
  extension is cut off where the name ends with it.
\<close>

definition basename_bru :: "string \<Rightarrow> string" where
  "basename_bru n = (if endsWith n ''.bru'' then take (length n - 4) n else n)"

text \<open>
  The object pushed for a request file. The properties of \<open>requestInfo\<close> are spread last,
  so a name found in the file replaces the one taken from the file name.
\<close>

definition makeRequest :: "path \<Rightarrow> path \<Rightarrow> string \<Rightarrow> BrunoInfo \<Rightarrow> BrunoRequest" where
  "makeRequest basePath dirPath entryName requestInfo =
     (let relativePath = drop (length basePath) dirPath
      in \<lparr>req_name = (case infoName requestInfo of Some n \<Rightarrow> n
                       | None \<Rightarrow> basename_bru entryName),
          req_method = infoMethod requestInfo,
          req_url = infoUrl requestInfo,
          req_folder = (if relativePath = [] then None else Some relativePath),
          req_path = dirPath @ [entryName]\<rparr>)"

text \<open>
  \<open>findBrunoRequests\<close> recurses into every sub-directory with no depth bound.
  \<open>Inl\<close> is the error of a rejected \<open>readdir\<close>, which nothing catches here.
  \<open>findInEntries\<close> is the body of the \<open>for\<close> loop over the entries, with \<open>requests\<close> the
  array built so far.
\<close>

function findBrunoRequests ::
    "filesystem \<Rightarrow> path \<Rightarrow> path \<Rightarrow> BrunoRequest list \<Rightarrow> error + BrunoRequest list"
  and findInEntries ::
    "filesystem \<Rightarrow> path \<Rightarrow> path \<Rightarrow> Dirent list \<Rightarrow> BrunoRequest list
       \<Rightarrow> error + BrunoRequest list"
where
  "findBrunoRequests fs dirPath basePath requests =
     (case readdir fs dirPath of
        Inl code \<Rightarrow> Inl (FsError code dirPath)
      | Inr entries \<Rightarrow> findInEntries fs dirPath basePath entries requests)"
| "findInEntries fs dirPath basePath [] requests = Inr requests"
| "findInEntries fs dirPath basePath (entry # remaining) requests =
     (if isDirectory entry \<and> \<not> startsWith (name entry) ''.'' then
        (if name entry = ''node_modules'' \<or> name entry = ''environments''
         then findInEntries fs dirPath basePath remaining requests
         else (case findBrunoRequests fs (dirPath @ [name entry]) basePath requests of
                 Inl e \<Rightarrow> Inl e
               | Inr requests' \<Rightarrow> findInEntries fs dirPath basePath remaining requests'))
      else if isFile entry \<and> endsWith (name entry) ''.bru'' then
        (if name entry = ''collection.bru''
         then findInEntries fs dirPath basePath remaining requests
         else findInEntries fs dirPath basePath remaining
                (requests @ [makeRequest basePath dirPath (name entry)
                               (parseBrunoFile fs (dirPath @ [name entry]))]))
      else findInEntries fs dirPath basePath remaining requests)"
  by pat_completeness auto
termination
proof (relation "inv_image (less_than <*lex*> less_than)
         (\<lambda>call. case call of
            Inl (fs, dirPath, basePath, requests) \<Rightarrow>
              (case readdir fs dirPath of
                 Inr entries \<Rightarrow> (Suc (deepest fs) - length dirPath, Suc (length entries))
               | Inl code \<Rightarrow> (0, 0))
          | Inr (fs, dirPath, basePath, entries, requests) \<Rightarrow>
              (Suc (deepest fs) - length dirPath, length entries))")
qed (auto intro: wf_inv_image dest: readdir_deepest split: sum.splits)

declare findBrunoRequests.simps [simp del] findInEntries.simps [simp del]

text \<open>
  \<open>listRequests\<close>. An error whose code is ENOENT is rethrown as "Collection not found";
  every other error is rethrown as it is.
\<close>

definition listRequests ::
  "filesystem \<Rightarrow> int \<Rightarrow> int \<Rightarrow> PerformanceManager \<Rightarrow> path
     \<Rightarrow> (error + BrunoRequest list) \<times> PerformanceManager" where
  "listRequests fs t0 t1 pm collectionPath =
     (case getCachedRequestList t0 collectionPath pm of
        (Some cached, pm') \<Rightarrow> (Inr cached, pm')
      | (None, pm') \<Rightarrow>
          (case stat_isDirectory fs collectionPath of
             Inl ENOENT \<Rightarrow> (Inl (CollectionNotFound collectionPath), pm')
           | Inl code \<Rightarrow> (Inl (FsError code collectionPath), pm')
           | Inr False \<Rightarrow> (Inl (NotADirectory collectionPath), pm')
           | Inr True \<Rightarrow>
               if \<not> hasCollectionFile fs collectionPath
               then (Inl (NotValidCollection collectionPath), pm')
               else (case findBrunoRequests fs collectionPath collectionPath [] of
                       Inl (FsError ENOENT p) \<Rightarrow> (Inl (CollectionNotFound collectionPath), pm')
                     | Inl e \<Rightarrow> (Inl e, pm')
                     | Inr requests \<Rightarrow>
                         (Inr requests, cacheRequestList t1 collectionPath requests pm'))))"

subsection \<open>findRequestFile\<close>

text \<open>
  The three \<open>requests.find\<close> calls of \<open>findRequestFile\<close>, each tried only when the one
  before found nothing (a found request is an object, hence truthy).
\<close>

definition matchRequest :: "BrunoRequest list \<Rightarrow> string \<Rightarrow> BrunoRequest option" where
  "matchRequest requests requestName =
     (case find (\<lambda>r. req_name r = requestName) requests of
        Some request \<Rightarrow> Some request
      | None \<Rightarrow>
          (case find (\<lambda>r. toLowerCase (req_name r) = toLowerCase requestName) requests of
             Some request \<Rightarrow> Some request
           | None \<Rightarrow> find (\<lambda>r. str_includes (req_name r) requestName) requests))"

text \<open>\<open>request?.path || null\<close>: an empty path is falsy.\<close>

definition pathOrNull :: "BrunoRequest option \<Rightarrow> path option" where
  "pathOrNull request =
     (case request of None \<Rightarrow> None
      | Some r \<Rightarrow> if req_path r = [] then None else Some (req_path r))"

definition findRequestFile :: "filesystem \<Rightarrow> path \<Rightarrow> string \<Rightarrow> error + path option" where
  "findRequestFile fs collectionPath requestName =
     (case findBrunoRequests fs collectionPath collectionPath [] of
        Inl e \<Rightarrow> Inl e
      | Inr requests \<Rightarrow> Inr (pathOrNull (matchRequest requests requestName)))"

text \<open>
  The first statements of \<open>runRequest\<close> and of \<open>getRequestDetails\<close>: locate the file or
  throw "Request ... not found in collection".
\<close>

definition locateRequest :: "filesystem \<Rightarrow> path \<Rightarrow> string \<Rightarrow> error + path" where
  "locateRequest fs collectionPath requestName =
     (case findRequestFile fs collectionPath requestName of
        Inl e \<Rightarrow> Inl e
      | Inr None \<Rightarrow> Inl (RequestNotFound requestName)
      | Inr (Some requestFile) \<Rightarrow> Inr requestFile)"

lemma findBrunoRequests_paths:
  "findBrunoRequests fs dirPath basePath acc = Inr rs \<Longrightarrow>
     \<forall>r \<in> set acc. req_path r \<noteq> [] \<Longrightarrow> \<forall>r \<in> set rs. req_path r \<noteq> []"
  "findInEntries fs dirPath basePath entries acc = Inr rs \<Longrightarrow>
     \<forall>r \<in> set acc. req_path r \<noteq> [] \<Longrightarrow> \<forall>r \<in> set rs. req_path r \<noteq> []"
proof (induction fs dirPath basePath acc and fs dirPath basePath entries acc
       arbitrary: rs and rs rule: findBrunoRequests_findInEntries.induct)
  case (1 fs dirPath basePath requests)
  then show ?case by (auto simp: findBrunoRequests.simps split: sum.splits)
next
  case (2 fs dirPath basePath requests)
  then show ?case by (simp add: findInEntries.simps)
next
  case (3 fs dirPath basePath entry remaining requests)
  show ?case
    using "3.prems" "3.IH"
    by (auto simp: findInEntries.simps makeRequest_def Let_def split: if_splits sum.splits)
qed

lemma findBrunoRequests_errors:
  "findBrunoRequests fs dirPath basePath acc = Inl e \<Longrightarrow> \<exists>c p. e = FsError c p"
  "findInEntries fs dirPath basePath entries acc = Inl e \<Longrightarrow> \<exists>c p. e = FsError c p"
proof (induction fs dirPath basePath acc and fs dirPath basePath entries acc
       arbitrary: e and e rule: findBrunoRequests_findInEntries.induct)
  case (1 fs dirPath basePath requests)
  then show ?case by (auto simp: findBrunoRequests.simps split: sum.splits)
next
  case (2 fs dirPath basePath requests)
  then show ?case by (simp add: findInEntries.simps)
next
  case (3 fs dirPath basePath entry remaining requests)
  show ?case
    using "3.prems" "3.IH"
    by (auto simp: findInEntries.simps split: if_splits sum.splits)
qed

lemma matchRequest_None:
  "matchRequest requests q = None \<longleftrightarrow>
     find (\<lambda>r. toLowerCase (req_name r) = toLowerCase q) requests = None
     \<and> find (\<lambda>r. str_includes (req_name r) q) requests = None"
proof -
  have "find (\<lambda>r. str_includes (req_name r) q) requests = None
          \<Longrightarrow> find (\<lambda>r. req_name r = q) requests = None"
    by (auto simp: find_None_iff includes_self)
  then have ex: "find (\<lambda>r. req_name r = q) requests = Some x
          \<Longrightarrow> find (\<lambda>r. str_includes (req_name r) q) requests \<noteq> None" for x
    by fastforce
  show ?thesis
  proof (cases "find (\<lambda>r. req_name r = q) requests")
    case None
    then show ?thesis by (simp add: matchRequest_def split: option.splits)
  next
    case (Some x)
    with ex[OF Some] show ?thesis by (simp add: matchRequest_def)
  qed
qed

text \<open>
  Paths that do not lead to a directory: below a regular file \<open>fs.stat\<close> and \<open>fs.readdir\<close>
  reject with ENOTDIR, which \<open>listRequests\<close> rethrows as it is; a missing path gives
  "Collection not found", a regular file "not a directory".
\<close>

lemma listRequests_rejections:
  "readdir exampleFs [''w'', ''README.md'', ''x''] = Inl ENOTDIR
   \<and> fst (listRequests exampleFs 0 0 freshManager [''w'', ''README.md'', ''x''])
        = Inl (FsError ENOTDIR [''w'', ''README.md'', ''x''])
   \<and> readdir exampleFs [''w'', ''missing''] = Inl ENOENT
   \<and> fst (listRequests exampleFs 0 0 freshManager [''w'', ''missing''])
        = Inl (CollectionNotFound [''w'', ''missing''])
   \<and> fst (listRequests exampleFs 0 0 freshManager [''w'', ''README.md''])
        = Inl (NotADirectory [''w'', ''README.md''])"
  by (simp add: listRequests_def getCachedRequestList_def freshManager_def Cache_get_def
      Cache_new_def stat_isDirectory_def readdir_def nodeAt_def exampleFs_def)

lemma basename_bru_examples:
  "basename_bru ''create.bru'' = ''create'' \<and> basename_bru ''.bru'' = ''''
   \<and> basename_bru ''a.bru.bru'' = ''a.bru''"
  by (simp add: basename_bru_def endsWith_def suffix_def)

text \<open>
  The name of a listed request is the name parsed from its file, or, where the file
  states none, the file name without its extension.
\<close>

definition parsedName :: "filesystem \<Rightarrow> BrunoRequest \<Rightarrow> bool" where
  "parsedName fs r =
     (req_name r = (case infoName (parseBrunoFile fs (req_path r)) of
                      Some n \<Rightarrow> n
                    | None \<Rightarrow> basename_bru (last (req_path r))))"

lemma findBrunoRequests_names:
  "findBrunoRequests fs dirPath basePath acc = Inr rs \<Longrightarrow>
     \<forall>r \<in> set acc. parsedName fs r \<Longrightarrow> \<forall>r \<in> set rs. parsedName fs r"
  "findInEntries fs dirPath basePath entries acc = Inr rs \<Longrightarrow>
     \<forall>r \<in> set acc. parsedName fs r \<Longrightarrow> \<forall>r \<in> set rs. parsedName fs r"
proof (induction fs dirPath basePath acc and fs dirPath basePath entries acc
       arbitrary: rs and rs rule: findBrunoRequests_findInEntries.induct)
  case (1 fs dirPath basePath requests)
  then show ?case by (auto simp: findBrunoRequests.simps split: sum.splits)
next
  case (2 fs dirPath basePath requests)
  then show ?case by (simp add: findInEntries.simps)
next
  case (3 fs dirPath basePath entry remaining requests)
  have new: "parsedName fs (makeRequest basePath dirPath (name entry)
                              (parseBrunoFile fs (dirPath @ [name entry])))"
    by (simp add: parsedName_def makeRequest_def Let_def split: option.splits)
  show ?case
    using "3.prems" "3.IH" new
    by (auto simp: findInEntries.simps split: if_splits sum.splits)
qed

text \<open>
  Claim C9: \<open>findBrunoRequests\<close> always returns; let \<open>requests\<close> be the listing of the
  collection (an error of the listing is passed on as it is). The lookup shared by
  \<open>runRequest\<close> and \<open>getRequestDetails\<close> yields the file of the first request whose name
  equals the requested one; if there is none, of the first whose name equals it ignoring
  case; if there is none either, of the first whose name contains it. "Not found" is
  raised exactly when the second and third stage both find nothing, and then no request
  name, each the name parsed from the request file, contains the requested string.
\<close>

theorem request_lookup_stages:
  "(findBrunoRequests fs collectionPath collectionPath [] = Inl e \<longrightarrow>
      locateRequest fs collectionPath q = Inl e \<and> e \<noteq> RequestNotFound q)
   \<and> (findBrunoRequests fs collectionPath collectionPath [] = Inr requests \<longrightarrow>
        (\<forall>r \<in> set requests. parsedName fs r)
        \<and> (find (\<lambda>r. req_name r = q) requests = Some r \<longrightarrow>
              locateRequest fs collectionPath q = Inr (req_path r))
        \<and> (find (\<lambda>r. req_name r = q) requests = None
              \<and> find (\<lambda>r. toLowerCase (req_name r) = toLowerCase q) requests = Some r \<longrightarrow>
              locateRequest fs collectionPath q = Inr (req_path r))
        \<and> (find (\<lambda>r. req_name r = q) requests = None
              \<and> find (\<lambda>r. toLowerCase (req_name r) = toLowerCase q) requests = None
              \<and> find (\<lambda>r. str_includes (req_name r) q) requests = Some r \<longrightarrow>
              locateRequest fs collectionPath q = Inr (req_path r))
        \<and> (locateRequest fs collectionPath q = Inl (RequestNotFound q) \<longleftrightarrow>
              find (\<lambda>r. toLowerCase (req_name r) = toLowerCase q) requests = None
              \<and> find (\<lambda>r. str_includes (req_name r) q) requests = None)
        \<and> (locateRequest fs collectionPath q = Inl (RequestNotFound q) \<longrightarrow>
              (\<forall>r \<in> set requests. \<not> (\<exists>pre post. req_name r = pre @ q @ post))))"
proof (intro conjI impI)
  assume err: "findBrunoRequests fs collectionPath collectionPath [] = Inl e"
  then show "locateRequest fs collectionPath q = Inl e"
    by (simp add: locateRequest_def findRequestFile_def)
  from findBrunoRequests_errors(1)[OF err] show "e \<noteq> RequestNotFound q" by auto
next
  assume found: "findBrunoRequests fs collectionPath collectionPath [] = Inr requests"
  show "\<forall>r \<in> set requests. parsedName fs r"
    using findBrunoRequests_names(1)[OF found] by simp
  have paths: "\<forall>r \<in> set requests. req_path r \<noteq> []"
    using findBrunoRequests_paths(1)[OF found] by simp
  have loc: "locateRequest fs collectionPath q =
               (case matchRequest requests q of
                  None \<Rightarrow> Inl (RequestNotFound q)
                | Some r \<Rightarrow> Inr (req_path r))"
  proof (cases "matchRequest requests q")
    case None
    then show ?thesis by (simp add: locateRequest_def findRequestFile_def found pathOrNull_def)
  next
    case (Some m)
    then have "m \<in> set requests"
      by (auto simp: matchRequest_def find_Some_iff split: option.splits)
    with paths have "req_path m \<noteq> []" by simp
    with Some show ?thesis
      by (simp add: locateRequest_def findRequestFile_def found pathOrNull_def)
  qed
  have nf: "locateRequest fs collectionPath q = Inl (RequestNotFound q)
          \<longleftrightarrow> matchRequest requests q = None"
    by (simp add: loc split: option.splits)
  {
    assume "find (\<lambda>r. req_name r = q) requests = Some r"
    then show "locateRequest fs collectionPath q = Inr (req_path r)"
      by (simp add: loc matchRequest_def)
  }
  {
    assume "find (\<lambda>r. req_name r = q) requests = None
            \<and> find (\<lambda>r. toLowerCase (req_name r) = toLowerCase q) requests = Some r"
    then show "locateRequest fs collectionPath q = Inr (req_path r)"
      by (simp add: loc matchRequest_def)
  }
  {
    assume "find (\<lambda>r. req_name r = q) requests = None
            \<and> find (\<lambda>r. toLowerCase (req_name r) = toLowerCase q) requests = None
            \<and> find (\<lambda>r. str_includes (req_name r) q) requests = Some r"
    then show "locateRequest fs collectionPath q = Inr (req_path r)"
      by (simp add: loc matchRequest_def)
  }
  show "locateRequest fs collectionPath q = Inl (RequestNotFound q) \<longleftrightarrow>
          find (\<lambda>r. toLowerCase (req_name r) = toLowerCase q) requests = None
          \<and> find (\<lambda>r. str_includes (req_name r) q) requests = None"
    by (simp only: nf matchRequest_None)
  {
    assume "locateRequest fs collectionPath q = Inl (RequestNotFound q)"
    then have "find (\<lambda>r. str_includes (req_name r) q) requests = None"
      by (simp add: nf matchRequest_None)
    then show "\<forall>r \<in> set requests. \<not> (\<exists>pre post. req_name r = pre @ q @ post)"
      by (simp add: find_None_iff includes_iff)
  }
qed

text \<open>
  The two requests of the example collection \<open>w/api\<close>: one named in its \<open>meta\<close> block, one
  named after its file.
\<close>

definition createUser :: BrunoRequest where
  "createUser = \<lparr>req_name = ''Create User'', req_method = Some ''POST'',
                  req_url = Some ''/users'', req_folder = Some [''users''],
                  req_path = [''w'', ''api'', ''users'', ''create.bru'']\<rparr>"

definition getUsers :: BrunoRequest where
  "getUsers = \<lparr>req_name = ''Get Users'', req_method = Some ''GET'',
               req_url = Some ''/users'', req_folder = None,
               req_path = [''w'', ''api'', ''Get Users.bru'']\<rparr>"

lemma parse_create:
  "parseBrunoFile exampleFs [''w'', ''api'', ''users'', ''create.bru'']
     = \<lparr>infoName = Some ''Create User'', infoMethod = Some ''POST'', infoUrl = Some ''/users''\<rparr>"
  by code_simp

lemma parse_get:
  "parseBrunoFile exampleFs [''w'', ''api'', ''Get Users.bru'']
     = \<lparr>infoName = None, infoMethod = Some ''GET'', infoUrl = Some ''/users''\<rparr>"
  by code_simp

lemma example_listings:
  "readdir exampleFs [''w'', ''api'']
     = Inr [Dirent ''bruno.json'' True False, Dirent ''users'' False True,
            Dirent ''Get Users.bru'' True False]"
  "readdir exampleFs [''w'', ''api'', ''users'']
     = Inr [Dirent ''bruno.json'' True False, Dirent ''create.bru'' True False,
            Dirent ''v2'' False True]"
  "readdir exampleFs [''w'', ''api'', ''users'', ''v2''] = Inr [Dirent ''bruno.json'' True False]"
  by (simp_all add: readdir_def nodeAt_def exampleFs_def)

lemma example_requests:
  "findBrunoRequests exampleFs [''w'', ''api''] [''w'', ''api''] [] = Inr [createUser, getUsers]"
  by (simp add: findBrunoRequests.simps findInEntries.simps example_listings startsWith_def
      endsWith_def suffix_def makeRequest_def basename_bru_def parse_create parse_get
      createUser_def getUsers_def)

theorem request_lookup_stages_witness:
  "findBrunoRequests exampleFs [''w'', ''api''] [''w'', ''api''] [] = Inr [createUser, getUsers]
   \<and> parsedName exampleFs createUser \<and> parsedName exampleFs getUsers
   \<and> find (\<lambda>r. req_name r = ''Get Users'') [createUser, getUsers] = Some getUsers
   \<and> locateRequest exampleFs [''w'', ''api''] ''Get Users'' = Inr [''w'', ''api'', ''Get Users.bru'']
   \<and> find (\<lambda>r. req_name r = ''create user'') [createUser, getUsers] = None
   \<and> find (\<lambda>r. toLowerCase (req_name r) = toLowerCase ''create user'') [createUser, getUsers]
        = Some createUser
   \<and> locateRequest exampleFs [''w'', ''api''] ''create user''
        = Inr [''w'', ''api'', ''users'', ''create.bru'']
   \<and> find (\<lambda>r. req_name r = ''Users'') [createUser, getUsers] = None
   \<and> find (\<lambda>r. toLowerCase (req_name r) = toLowerCase ''Users'') [createUser, getUsers] = None
   \<and> find (\<lambda>r. str_includes (req_name r) ''Users'') [createUser, getUsers] = Some getUsers
   \<and> locateRequest exampleFs [''w'', ''api''] ''Users'' = Inr [''w'', ''api'', ''Get Users.bru'']
   \<and> find (\<lambda>r. str_includes (req_name r) ''Posts'') [createUser, getUsers] = None
   \<and> locateRequest exampleFs [''w'', ''api''] ''Posts'' = Inl (RequestNotFound ''Posts'')"
proof -
  note st = request_lookup_stages[of exampleFs "[''w'', ''api'']" _ _ "[createUser, getUsers]"]
  have lower: "toLowerCase ''Get Users'' = ''get users''"
    "toLowerCase ''Create User'' = ''create user''" "toLowerCase ''Users'' = ''users''"
    "toLowerCase ''create user'' = ''create user''" "toLowerCase ''Posts'' = ''posts''"
    by code_simp+
  have e1: "find (\<lambda>r. req_name r = ''Get Users'') [createUser, getUsers] = Some getUsers"
    and f1: "find (\<lambda>r. req_name r = ''create user'') [createUser, getUsers] = None"
    and f2: "find (\<lambda>r. toLowerCase (req_name r) = toLowerCase ''create user'')
               [createUser, getUsers] = Some createUser"
    and g1: "find (\<lambda>r. req_name r = ''Users'') [createUser, getUsers] = None"
    and g2: "find (\<lambda>r. toLowerCase (req_name r) = toLowerCase ''Users'') [createUser, getUsers]
               = None"
    and g3: "find (\<lambda>r. str_includes (req_name r) ''Users'') [createUser, getUsers] = Some getUsers"
    and h2: "find (\<lambda>r. toLowerCase (req_name r) = toLowerCase ''Posts'') [createUser, getUsers]
               = None"
    and h3: "find (\<lambda>r. str_includes (req_name r) ''Posts'') [createUser, getUsers] = None"
    by (simp_all add: getUsers_def createUser_def lower)
  from st[of _ "''Users''"] example_requests
  have names: "parsedName exampleFs createUser" "parsedName exampleFs getUsers" by simp_all
  from st[of _ "''Get Users''" getUsers] example_requests e1
  have a: "locateRequest exampleFs [''w'', ''api''] ''Get Users'' = Inr (req_path getUsers)"
    by blast
  from st[of _ "''create user''" createUser] example_requests f1 f2
  have b: "locateRequest exampleFs [''w'', ''api''] ''create user'' = Inr (req_path createUser)"
    by blast
  from st[of _ "''Users''" getUsers] example_requests g1 g2 g3
  have c: "locateRequest exampleFs [''w'', ''api''] ''Users'' = Inr (req_path getUsers)"
    by blast
  from st[of _ "''Posts''"] example_requests h2 h3
  have d: "locateRequest exampleFs [''w'', ''api''] ''Posts'' = Inl (RequestNotFound ''Posts'')"
    by blast
  have p: "req_path getUsers = [''w'', ''api'', ''Get Users.bru'']"
    "req_path createUser = [''w'', ''api'', ''users'', ''create.bru'']"
    by (simp_all add: getUsers_def createUser_def)
  from example_requests names e1 f1 f2 g1 g2 g3 h3 a b c d show ?thesis unfolding p by blast
qed

subsection \<open>The marker of discovery and the marker of listRequests\<close>

definition requestListMiss :: "int \<Rightarrow> PerformanceManager \<Rightarrow> path \<Rightarrow> bool" where
  "requestListMiss t0 pm collectionPath = (fst (getCachedRequestList t0 collectionPath pm) = None)"

lemma requestListMiss_fresh: "requestListMiss t freshManager p"
  by (simp add: requestListMiss_def getCachedRequestList_def freshManager_def Cache_get_def
      Cache_new_def)

text \<open>
  Claim C10: a traversal returns a directory exactly when it read it and its listing has a
  file named \<open>bruno.json\<close>. \<open>listRequests\<close> goes by \<open>hasCollectionFile\<close>, which holds when
  \<open>bruno.json\<close> or \<open>collection.bru\<close> exists in the directory: on a directory that is not
  served from the cache it raises "Not a valid Bruno collection" exactly when neither
  exists. So on \<open>w/legacy\<close>, marked by \<open>collection.bru\<close> only, \<open>listRequests\<close> succeeds,
  while no discovery, from any root and with any depth, returns it.
\<close>

theorem marker_file_mismatch:
  "(cacheMiss t0 pm start \<longrightarrow>
      (p \<in> set (returned (discoverCollections fs t0 t1 pm start maxDepth)) \<longleftrightarrow>
         p \<in> set (dirsRead (discoverCollections fs t0 t1 pm start maxDepth))
         \<and> (\<exists>entries. readdir fs p = Inr entries
               \<and> (\<exists>e \<in> set entries. isFile e \<and> name e = ''bruno.json''))))
   \<and> (hasCollectionFile fs d \<longleftrightarrow>
         access fs (d @ [''bruno.json'']) \<or> access fs (d @ [''collection.bru'']))
   \<and> (requestListMiss t0 pm d \<and> stat_isDirectory fs d = Inr True \<longrightarrow>
         (fst (listRequests fs t0 t1 pm d) = Inl (NotValidCollection d) \<longleftrightarrow>
            \<not> hasCollectionFile fs d))
   \<and> fst (listRequests exampleFs t0 t1 freshManager [''w'', ''legacy'']) = Inr []
   \<and> [''w'', ''legacy''] \<notin> set (returned (discoverCollections exampleFs t0 t1 freshManager start maxDepth))"
proof (intro conjI impI)
  have hm: "hasMarker fs p \<longleftrightarrow> (\<exists>entries. readdir fs p = Inr entries
               \<and> (\<exists>e \<in> set entries. isFile e \<and> name e = ''bruno.json''))" for fs p
    by (auto simp: hasMarker_def hasBrunoJson_def list_ex_iff split: sum.splits)
  {
    assume miss: "cacheMiss t0 pm start"
    show "p \<in> set (returned (discoverCollections fs t0 t1 pm start maxDepth)) \<longleftrightarrow>
         p \<in> set (dirsRead (discoverCollections fs t0 t1 pm start maxDepth))
         \<and> (\<exists>entries. readdir fs p = Inr entries
               \<and> (\<exists>e \<in> set entries. isFile e \<and> name e = ''bruno.json''))"
      unfolding hm[symmetric]
      by (simp add: returned_def dirsRead_def discover_miss[OF miss] searchDirectory_collections)
  }
  show "hasCollectionFile fs d \<longleftrightarrow>
         access fs (d @ [''bruno.json'']) \<or> access fs (d @ [''collection.bru''])"
    by (simp add: hasCollectionFile_def)
  {
    assume a: "requestListMiss t0 pm d \<and> stat_isDirectory fs d = Inr True"
    then obtain pm' where g: "getCachedRequestList t0 d pm = (None, pm')"
      by (cases "getCachedRequestList t0 d pm") (simp add: requestListMiss_def)
    show "fst (listRequests fs t0 t1 pm d) = Inl (NotValidCollection d) \<longleftrightarrow>
            \<not> hasCollectionFile fs d"
    proof (cases "hasCollectionFile fs d")
      case False
      with a g show ?thesis by (simp add: listRequests_def)
    next
      case True
      have "fst (listRequests fs t0 t1 pm d) \<noteq> Inl (NotValidCollection d)"
      proof (cases "findBrunoRequests fs d d []")
        case (Inl e)
        with findBrunoRequests_errors(1) obtain c q where "e = FsError c q" by blast
        with a g True Inl show ?thesis
          by (cases c) (simp_all add: listRequests_def)
      next
        case (Inr rs)
        with a g True show ?thesis by (simp add: listRequests_def)
      qed
      with True show ?thesis by simp
    qed
  }
  show "fst (listRequests exampleFs t0 t1 freshManager [''w'', ''legacy'']) = Inr []"
    by (simp add: listRequests_def getCachedRequestList_def freshManager_def Cache_get_def
        Cache_new_def stat_isDirectory_def hasCollectionFile_def access_def exampleFs_def
        readdir_def nodeAt_def startsWith_def endsWith_def cacheRequestList_def
        findBrunoRequests.simps findInEntries.simps)
  have "\<not> hasMarker exampleFs [''w'', ''legacy'']"
    by (simp add: hasMarker_def exampleFs_def readdir_def nodeAt_def hasBrunoJson_def)
  then show "[''w'', ''legacy''] \<notin> set (returned (discoverCollections exampleFs t0 t1 freshManager start maxDepth))"
    by (simp add: returned_def discover_miss[OF cacheMiss_fresh] searchDirectory_collections)
qed

theorem marker_file_mismatch_witness:
  "cacheMiss 0 freshManager [''w'']
   \<and> [''w'', ''api''] \<in> set (returned (discoverCollections exampleFs 0 0 freshManager [''w''] (Number 5)))
   \<and> [''w'', ''legacy''] \<in> set (dirsRead (discoverCollections exampleFs 0 0 freshManager [''w''] (Number 5)))
   \<and> [''w'', ''legacy''] \<notin> set (returned (discoverCollections exampleFs 0 0 freshManager [''w''] (Number 5)))
   \<and> readdir exampleFs [''w'', ''legacy''] = Inr [Dirent ''collection.bru'' True False]
   \<and> hasCollectionFile exampleFs [''w'', ''legacy'']
   \<and> requestListMiss 0 freshManager [''w'', ''legacy'']
   \<and> stat_isDirectory exampleFs [''w'', ''legacy''] = Inr True
   \<and> fst (listRequests exampleFs 0 0 freshManager [''w'', ''legacy'']) = Inr []"
proof -
  note m = marker_file_mismatch[of 0 freshManager "[''w'']" "[''w'', ''legacy'']" exampleFs 0
             "Number 5" "[''w'', ''legacy'']"]
  have rd: "readdir exampleFs [''w'', ''legacy''] = Inr [Dirent ''collection.bru'' True False]"
    and st: "stat_isDirectory exampleFs [''w'', ''legacy''] = Inr True"
    and ac: "access exampleFs ([''w'', ''legacy''] @ [''collection.bru''])"
    by (simp_all add: readdir_def stat_isDirectory_def access_def nodeAt_def exampleFs_def)
  have api: "[''w'', ''api''] \<in> set (returned (discoverCollections exampleFs 0 0 freshManager [''w''] (Number 5)))"
    and leg: "[''w'', ''legacy''] \<in> set (dirsRead (discoverCollections exampleFs 0 0 freshManager [''w''] (Number 5)))"
    by (simp_all add: example_eval)
  from m have "[''w'', ''legacy''] \<notin> set (returned (discoverCollections exampleFs 0 0 freshManager [''w''] (Number 5)))"
    by blast
  moreover from m ac have "hasCollectionFile exampleFs [''w'', ''legacy'']" by blast
  moreover from m have "fst (listRequests exampleFs 0 0 freshManager [''w'', ''legacy'']) = Inr []"
    by simp
  ultimately show ?thesis
    using cacheMiss_fresh[of 0 "[''w'']"] requestListMiss_fresh[of 0 "[''w'', ''legacy'']"] api leg rd st
    by blast
qed

end
